theory Spec2Isabelle
  imports Main "HOL-Library.Sublist" "HOL-Library.Char_ord" "HOL-Library.List_Lexorder"
    "HOL-Library.Product_Lexorder"
begin

section \<open>Python text primitives\<close>

text \<open>
  The scripts work on Python \<open>str\<close> values. A text is modelled as a \<open>string\<close>, one
  \<open>char\<close> per code point; the model covers texts whose code points are below 256.
  The character classes are those of Python's \<open>re\<close> module and of \<open>str.strip\<close>
  on that range.
\<close>

definition nl :: char where
  "nl = CHR 0x0A"

definition cr :: char where
  "cr = CHR 0x0D"

definition squote :: char where
  "squote = CHR 0x27"

definition dquote :: char where
  "dquote = CHR 0x22"

definition is_space :: "char \<Rightarrow> bool" where
  \<comment> \<open>\<open>\s\<close> and \<open>str.isspace\<close>: TAB, LF, VT, FF, CR, FS, GS, RS, US, SPACE, NEL, NBSP\<close>
  "is_space c = (let n = (of_char c :: nat)
                 in (9 \<le> n \<and> n \<le> 13) \<or> (28 \<le> n \<and> n \<le> 32) \<or> n = 133 \<or> n = 160)"

definition is_digit :: "char \<Rightarrow> bool" where
  \<comment> \<open>\<open>\d\<close>: the decimal digits\<close>
  "is_digit c = (let n = (of_char c :: nat) in 48 \<le> n \<and> n \<le> 57)"

definition is_quote :: "char \<Rightarrow> bool" where
  \<comment> \<open>the class \<open>['"]\<close>\<close>
  "is_quote c = (c = squote \<or> c = dquote)"

fun split_on :: "char \<Rightarrow> string \<Rightarrow> string list" where
  \<comment> \<open>\<open>s.split(sep)\<close> for a one-character separator: never the empty list\<close>
  "split_on d [] = [[]]"
| "split_on d (c # cs) =
     (if c = d then [] # split_on d cs
      else (case split_on d cs of [] \<Rightarrow> [[c]] | l # ls \<Rightarrow> (c # l) # ls))"

fun join_on :: "char \<Rightarrow> string list \<Rightarrow> string" where
  \<comment> \<open>\<open>sep.join(lines)\<close>\<close>
  "join_on d [] = []"
| "join_on d [l] = l"
| "join_on d (l # l' # ls) = l @ d # join_on d (l' # ls)"

definition strip :: "string \<Rightarrow> string" where
  \<comment> \<open>\<open>s.strip()\<close>\<close>
  "strip s = rev (dropWhile is_space (rev (dropWhile is_space s)))"

definition startswith :: "string \<Rightarrow> string \<Rightarrow> bool" where
  \<comment> \<open>\<open>s.startswith(p)\<close>\<close>
  "startswith s p = prefix p s"

fun contains :: "string \<Rightarrow> string \<Rightarrow> bool" where
  \<comment> \<open>\<open>sub in s\<close>\<close>
  "contains [] sub = (sub = [])"
| "contains (c # cs) sub = (prefix sub (c # cs) \<or> contains cs sub)"

function count_sub :: "string \<Rightarrow> string \<Rightarrow> nat" where
  \<comment> \<open>\<open>s.count(sub)\<close> for a non-empty \<open>sub\<close>: occurrences that do not overlap, from the left\<close>
  "count_sub s sub =
     (if sub = [] \<or> s = [] then 0
      else if prefix sub s then Suc (count_sub (drop (length sub) s) sub)
      else count_sub (tl s) sub)"
  by pat_completeness auto
termination
  by (relation "measure (\<lambda>(s, sub). length s)") auto

declare count_sub.simps [simp del]

fun int_of_digits :: "nat \<Rightarrow> string \<Rightarrow> nat" where
  \<comment> \<open>\<open>int(text)\<close> on a run of decimal digits, with the value read so far\<close>
  "int_of_digits acc [] = acc"
| "int_of_digits acc (c # cs) = int_of_digits (10 * acc + (of_char c - 48)) cs"

section \<open>Regular expressions with backtracking\<close>

text \<open>
  The patterns of the scripts use literals, one-character classes, greedy repetition of
  a class, sequencing and capture groups. The matcher returns every way the pattern
  matches at the head of the text, in the order in which the backtracking search of
  \<open>re\<close> tries them: the first element is the match that \<open>re\<close> reports.
\<close>

datatype re =
    Lit string
  | One "char \<Rightarrow> bool"
  | Rep nat "char \<Rightarrow> bool"
  | Seq re re
  | Grp nat re

type_synonym groups = "nat \<Rightarrow> string option"

fun rmatch :: "re \<Rightarrow> string \<Rightarrow> groups \<Rightarrow> (string \<times> groups) list" where
  "rmatch (Lit l) s g = (if prefix l s then [(drop (length l) s, g)] else [])"
| "rmatch (One p) s g = (case s of [] \<Rightarrow> [] | c # cs \<Rightarrow> if p c then [(cs, g)] else [])"
| "rmatch (Rep lo p) s g =
     map (\<lambda>k. (drop k s, g)) (rev [lo ..< Suc (length (takeWhile p s))])"
| "rmatch (Seq a b) s g = concat (map (\<lambda>(s', g'). rmatch b s' g') (rmatch a s g))"
| "rmatch (Grp n a) s g =
     map (\<lambda>(s', g'). (s', g'(n \<mapsto> take (length s - length s') s))) (rmatch a s g)"

fun seqs :: "re list \<Rightarrow> re" where
  "seqs [] = Lit []"
| "seqs [r] = r"
| "seqs (r # rs) = Seq r (seqs rs)"

definition first_match :: "re \<Rightarrow> bool \<Rightarrow> string \<Rightarrow> (string \<times> groups) option" where
  \<comment> \<open>the match reported at the head of \<open>s\<close>; with \<open>adv\<close> an empty match is refused\<close>
  "first_match r adv s =
     find (\<lambda>(s', g). \<not> adv \<or> length s' < length s) (rmatch r s (\<lambda>_. None))"

fun search :: "re \<Rightarrow> string \<Rightarrow> (string \<times> groups) option" where
  \<comment> \<open>\<open>re.search\<close>: the leftmost match\<close>
  "search r [] = first_match r False []"
| "search r (c # cs) =
     (case first_match r False (c # cs) of
        Some m \<Rightarrow> Some m
      | None \<Rightarrow> search r cs)"

datatype titem = TLit string | TGrp nat

fun expand :: "titem list \<Rightarrow> groups \<Rightarrow> string" where
  \<comment> \<open>the replacement template with the groups of a match filled in\<close>
  "expand [] g = []"
| "expand (TLit l # t) g = l @ expand t g"
| "expand (TGrp n # t) g = (case g n of None \<Rightarrow> [] | Some x \<Rightarrow> x) @ expand t g"

function sub_go :: "re \<Rightarrow> titem list \<Rightarrow> bool \<Rightarrow> string \<Rightarrow> string" where
  \<comment> \<open>\<open>re.sub\<close> from the current position; \<open>adv\<close> is set after an empty match\<close>
  "sub_go r t adv s =
     (case first_match r adv s of
        None \<Rightarrow> (case s of [] \<Rightarrow> [] | c # cs \<Rightarrow> c # sub_go r t False cs)
      | Some (s', g) \<Rightarrow>
          expand t g @
          (if length s' < length s then sub_go r t False s'
           else if adv then s
           else sub_go r t True s))"
  by pat_completeness auto
termination
  by (relation "measure (\<lambda>(r, t, adv, s). 2 * length s + (if adv then 0 else 1))") auto

declare sub_go.simps [simp del]

definition re_sub :: "re \<Rightarrow> titem list \<Rightarrow> string \<Rightarrow> string" where
  \<comment> \<open>\<open>re.sub(pattern, repl, text)\<close>\<close>
  "re_sub r t s = sub_go r t False s"

section \<open>Files, events and errors\<close>

text \<open>
  A file system maps the path text handed to \<open>Path\<close> or \<open>open\<close> to the text stored in
  the regular file there; distinct path texts name distinct files. \<open>Path.read_text\<close> opens
  the file with universal newlines: a carriage return followed by a line feed, and a
  carriage return alone, arrive as one line feed. \<open>Path.write_text\<close> stores a text as it
  is, as on the POSIX systems the absolute paths of the scripts belong to. A path can also
  exist without holding a text: a directory, or a file whose bytes do not decode. Reading
  it raises; the dead-code remover takes these entries, with the error of each, from its
  environment, and the import fixers are modelled on file systems whose listed paths hold
  a text or nothing. The events keep what a run does to the outside: the files it writes,
  the status lines of the import fixers and the start of the test command.
\<close>

type_synonym fs = "string \<Rightarrow> string option"

datatype py_error =
  ValueError | IndexError | FileNotFoundError | IsADirectoryError | UnicodeDecodeError

fun universal_newlines :: "string \<Rightarrow> string" where
  \<comment> \<open>the translation of line ends done when a file is read as text\<close>
  "universal_newlines [] = []"
| "universal_newlines [c] = [if c = cr then nl else c]"
| "universal_newlines (c # d # cs) =
     (if c = cr \<and> d = nl then nl # universal_newlines cs
      else (if c = cr then nl else c) # universal_newlines (d # cs))"

definition read_text :: "(string \<Rightarrow> py_error option) \<Rightarrow> fs \<Rightarrow> string \<Rightarrow> py_error + string" where
  \<comment> \<open>\<open>path.read_text()\<close>; \<open>unreadable\<close> gives the error for an entry that is no text\<close>
  "read_text unreadable fs p =
     (case unreadable p of
        Some e \<Rightarrow> Inl e
      | None \<Rightarrow>
          (case fs p of
             None \<Rightarrow> Inl FileNotFoundError
           | Some stored \<Rightarrow> Inr (universal_newlines stored)))"

definition path_exists :: "(string \<Rightarrow> py_error option) \<Rightarrow> fs \<Rightarrow> string \<Rightarrow> bool" where
  \<comment> \<open>\<open>path.exists()\<close>\<close>
  "path_exists unreadable fs p = (fs p \<noteq> None \<or> unreadable p \<noteq> None)"

datatype message =
    Skipping string
  | Fixed string
  | NoChange string
  | NoChangeNeeded string
  | UsedIn string nat
  | NotFoundIn string
  | DoneMsg
  | Refactored
  | NewFileSize nat

datatype event = Wrote string string | Said message | RanTests

fun written :: "event list \<Rightarrow> string list" where
  \<comment> \<open>the paths written during a run, in order\<close>
  "written [] = []"
| "written (Wrote p c # es) = p # written es"
| "written (e # es) = written es"

section \<open>scripts/aggressive-cleanup.py\<close>

subsection \<open>get_unused_items\<close>

type_synonym unused = "(string \<times> (nat \<times> string) list) list"

fun dd_append :: "string \<Rightarrow> nat \<times> string \<Rightarrow> unused \<Rightarrow> unused" where
  \<comment> \<open>\<open>unused[key].append(item)\<close> on a \<open>defaultdict(list)\<close>, keys in insertion order\<close>
  "dd_append k v [] = [(k, [v])]"
| "dd_append k v ((k', vs) # rest) =
     (if k = k' then (k', vs @ [v]) # rest else (k', vs) # dd_append k v rest)"

definition match_group :: "groups \<Rightarrow> nat \<Rightarrow> string" where
  \<comment> \<open>\<open>match.group(n)\<close> of a group that took part in the match\<close>
  "match_group g n = (case g n of None \<Rightarrow> [] | Some x \<Rightarrow> x)"

definition quoted_re :: re where
  \<comment> \<open>\<open>'([^']+)'\<close>\<close>
  "quoted_re = seqs [Lit [squote], Grp 1 (Rep 1 (\<lambda>c. c \<noteq> squote)), Lit [squote]]"

definition lineno_re :: re where
  \<comment> \<open>\<open>^\s*(\d+):\<close>, matched at the start of the line\<close>
  "lineno_re = seqs [Rep 0 is_space, Grp 1 (Rep 1 is_digit), Lit '':'']"

fun scan_line :: "string option \<times> unused \<Rightarrow> string \<Rightarrow> string option \<times> unused" where
  \<comment> \<open>one turn of the loop over the lines: the current file and the collection\<close>
  "scan_line (current_file, unused) line =
     (if startswith (strip line) ''/Users'' then (Some (strip line), unused)
      else if contains line [squote] \<and> contains line ''is defined but never used'' then
        (case (search quoted_re line, current_file) of
           (Some (_, m), Some file) \<Rightarrow>
             (if file = [] then (current_file, unused)
              else (case first_match lineno_re False line of
                      None \<Rightarrow> (current_file, unused)
                    | Some (_, lm) \<Rightarrow>
                        (current_file,
                         dd_append file (int_of_digits 0 (match_group lm 1), match_group m 1) unused)))
         | _ \<Rightarrow> (current_file, unused))
      else (current_file, unused))"

definition scan_lines :: "string list \<Rightarrow> unused" where
  "scan_lines lines = snd (foldl scan_line (None, []) lines)"

definition get_unused_items :: "string \<Rightarrow> string \<Rightarrow> unused" where
  \<comment> \<open>the arguments are the captured standard output and standard error of the lint run\<close>
  "get_unused_items out err = scan_lines (split_on nl (out @ err))"

subsection \<open>remove_from_import\<close>

definition import_single_re :: "string \<Rightarrow> re" where
  \<comment> \<open>\<open>\{\s*SYMBOL\s*\}\<close>\<close>
  "import_single_re symbol = seqs [Lit ''{'', Rep 0 is_space, Lit symbol, Rep 0 is_space, Lit ''}'']"

definition import_after_comma_re :: "string \<Rightarrow> re" where
  \<comment> \<open>\<open>,\s*SYMBOL\s*[,}]\<close>\<close>
  "import_after_comma_re symbol =
     seqs [Lit '','', Rep 0 is_space, Lit symbol, Rep 0 is_space,
           One (\<lambda>c. c = CHR '','' \<or> c = CHR ''}'')]"

definition import_first_re :: "string \<Rightarrow> re" where
  \<comment> \<open>\<open>\{\s*SYMBOL\s*,\<close>\<close>
  "import_first_re symbol = seqs [Lit ''{'', Rep 0 is_space, Lit symbol, Rep 0 is_space, Lit '','']"

definition empty_import_re :: re where
  \<comment> \<open>\<open>import\s+\{\s*\}\s+from\s+['"][^'"]+['"];\s*\n\<close>\<close>
  "empty_import_re =
     seqs [Lit ''import'', Rep 1 is_space, Lit ''{'', Rep 0 is_space, Lit ''}'', Rep 1 is_space,
           Lit ''from'', Rep 1 is_space, One is_quote, Rep 1 (\<lambda>c. \<not> is_quote c), One is_quote,
           Lit '';'', Rep 0 is_space, Lit [nl]]"

definition remove_from_import :: "string \<Rightarrow> string \<Rightarrow> string" where
  "remove_from_import content symbol =
     (let content = re_sub (import_single_re symbol) [TLit ''{}''] content;
          content = re_sub (import_after_comma_re symbol) [TLit '',''] content;
          content = re_sub (import_first_re symbol) [TLit ''{''] content;
          content = re_sub empty_import_re [TLit []] content
      in content)"

subsection \<open>remove_parameter\<close>

definition param_after_comma_re :: "string \<Rightarrow> re" where
  \<comment> \<open>\<open>,\s*PARAM\s*:\<close>\<close>
  "param_after_comma_re param = seqs [Lit '','', Rep 0 is_space, Lit param, Rep 0 is_space, Lit '':'']"

definition param_first_re :: "string \<Rightarrow> re" where
  \<comment> \<open>\<open>\(\s*PARAM\s*:\<close>\<close>
  "param_first_re param = seqs [Lit ''('', Rep 0 is_space, Lit param, Rep 0 is_space, Lit '':'']"

definition annotation_re :: re where
  \<comment> \<open>\<open>:\s*[^,)]+,\s*\<close>\<close>
  "annotation_re =
     seqs [Lit '':'', Rep 0 is_space, Rep 1 (\<lambda>c. c \<noteq> CHR '','' \<and> c \<noteq> CHR '')''), Lit '','',
           Rep 0 is_space]"

definition edit_line :: "string \<Rightarrow> string \<Rightarrow> string" where
  \<comment> \<open>the three substitutions on the chosen line\<close>
  "edit_line param line =
     (let line = re_sub (param_after_comma_re param) [TLit '',''] line;
          line = re_sub (param_first_re param) [TLit ''(''] line;
          line = re_sub annotation_re [TLit '': ''] line
      in line)"

definition py_index :: "nat \<Rightarrow> int \<Rightarrow> py_error + nat" where
  \<comment> \<open>the position a list of length \<open>n\<close> reads or writes at index \<open>i\<close>\<close>
  "py_index n i =
     (if 0 \<le> i \<and> i < int n then Inr (nat i)
      else if i < 0 \<and> - int n \<le> i then Inr (nat (int n + i))
      else Inl IndexError)"

definition remove_parameter :: "string \<Rightarrow> string \<Rightarrow> int \<Rightarrow> py_error + string" where
  "remove_parameter content param line_num =
     (let lines = split_on nl content in
      if line_num \<le> int (length lines) then
        (case py_index (length lines) (line_num - 1) of
           Inl e \<Rightarrow> Inl e
         | Inr j \<Rightarrow> Inr (join_on nl (lines[j := edit_line param (lines ! j)])))
      else Inr content)"

subsection \<open>main\<close>

record env =
  cwd :: string
  lint_stdout :: string
  lint_stderr :: string
  test_returncode :: int
  unreadable :: "string \<Rightarrow> py_error option"

definition path_parts :: "string \<Rightarrow> string list" where
  \<comment> \<open>\<open>PurePosixPath(p).parts\<close>\<close>
  "path_parts p =
     (let root = (if prefix ''//'' p \<and> \<not> prefix ''///'' p then ''//''
                  else if prefix ''/'' p then ''/'' else [])
      in (if root = [] then [] else [root]) @
         filter (\<lambda>x. x \<noteq> [] \<and> x \<noteq> ''.'') (split_on (CHR ''/'') p))"

definition relative_to :: "string \<Rightarrow> string \<Rightarrow> py_error + string list" where
  \<comment> \<open>\<open>Path(p).relative_to(base)\<close>: the parts below \<open>base\<close>, or ValueError\<close>
  "relative_to p base =
     (if prefix (path_parts base) (path_parts p)
      then Inr (drop (length (path_parts base)) (path_parts p))
      else Inl ValueError)"

definition has_keyword :: "string \<Rightarrow> bool" where
  \<comment> \<open>\<open>any(keyword in content for keyword in ['function', 'async', '=>'])\<close>\<close>
  "has_keyword content =
     (contains content ''function'' \<or> contains content ''async'' \<or> contains content ''=>'')"

fun apply_items :: "string \<Rightarrow> (nat \<times> string) list \<Rightarrow> py_error + string" where
  \<comment> \<open>the loop over the items of one file\<close>
  "apply_items content [] = Inr content"
| "apply_items content ((line_num, symbol) # items) =
     (let content = remove_from_import content symbol in
      if has_keyword content then
        (case remove_parameter content symbol (int line_num) of
           Inl e \<Rightarrow> Inl e
         | Inr content' \<Rightarrow> apply_items content' items)
      else apply_items content items)"

definition sorted_desc :: "(nat \<times> string) list \<Rightarrow> (nat \<times> string) list" where
  \<comment> \<open>\<open>sorted(items, reverse=True)\<close>\<close>
  "sorted_desc items = rev (sort items)"

record outcome =
  files :: fs
  trace :: "event list"
  raised :: "py_error option"

fun cleanup_files ::
  "string \<Rightarrow> (string \<Rightarrow> py_error option) \<Rightarrow> unused \<Rightarrow> fs \<Rightarrow> event list \<Rightarrow> outcome" where
  \<comment> \<open>the loop over \<open>unused.items()\<close>; an exception ends the run with the state reached\<close>
  "cleanup_files wd bad [] fs tr = \<lparr>files = fs, trace = tr, raised = None\<rparr>"
| "cleanup_files wd bad ((filepath, items) # rest) fs tr =
     (if \<not> path_exists bad fs filepath then cleanup_files wd bad rest fs tr
      else
        (case relative_to filepath wd of
           Inl e \<Rightarrow> \<lparr>files = fs, trace = tr, raised = Some e\<rparr>
         | Inr _ \<Rightarrow>
             (case read_text bad fs filepath of
                Inl e \<Rightarrow> \<lparr>files = fs, trace = tr, raised = Some e\<rparr>
              | Inr original \<Rightarrow>
                  (case apply_items original (sorted_desc items) of
                     Inl e \<Rightarrow> \<lparr>files = fs, trace = tr, raised = Some e\<rparr>
                   | Inr content \<Rightarrow>
                       (if content \<noteq> original
                        then cleanup_files wd bad rest (fs(filepath \<mapsto> content))
                               (tr @ [Wrote filepath content])
                        else cleanup_files wd bad rest fs tr)))))"

definition main :: "env \<Rightarrow> fs \<Rightarrow> outcome" where
  "main e fs =
     (let unused = get_unused_items (lint_stdout e) (lint_stderr e) in
      if unused = [] then \<lparr>files = fs, trace = [], raised = None\<rparr>
      else
        (let r = cleanup_files (cwd e) (unreadable e) unused fs [] in
         case raised r of
           Some x \<Rightarrow> r
         | None \<Rightarrow> r\<lparr>trace := trace r @ [RanTests]\<rparr>))"

section \<open>scripts/fix-unused-imports.py\<close>

definition files_to_fix :: "string list" where
  "files_to_fix =
     [''src/workflows/steps/ContextStep.ts'',
      ''src/workflows/steps/GitOperationStep.ts'',
      ''src/workflows/steps/MilestoneStatusCheckStep.ts'',
      ''src/workflows/steps/PersonaRequestStep.ts'',
      ''src/workflows/steps/PlanEvaluationStep.ts'',
      ''src/workflows/steps/PlanningLoopStep.ts'',
      ''src/workflows/steps/PlanningStep.ts'',
      ''src/workflows/steps/PullTaskStep.ts'',
      ''src/workflows/steps/QAStep.ts'',
      ''src/workflows/steps/ReviewFailureTasksStep.ts'',
      ''src/workflows/steps/SimpleTaskStatusStep.ts'',
      ''src/workflows/steps/TaskUpdateStep.ts'',
      ''src/workflows/steps/VariableResolutionStep.ts'']"

definition not_brace :: "char \<Rightarrow> bool" where
  \<comment> \<open>the class \<open>[^}]\<close>\<close>
  "not_brace c = (c \<noteq> CHR ''}'')"

definition step_config_re :: re where
  \<comment> \<open>\<open>(import\s+{[^}]*), WorkflowStepConfig([^}]*}\s+from\s+['"]\.\.\/engine\/WorkflowStep\.js['"])\<close>\<close>
  "step_config_re =
     Seq (Grp 1 (seqs [Lit ''import'', Rep 1 is_space, Lit ''{'', Rep 0 not_brace]))
       (Seq (Lit '', WorkflowStepConfig'')
          (Grp 2 (seqs [Rep 0 not_brace, Lit ''}'', Rep 1 is_space, Lit ''from'', Rep 1 is_space,
                        One is_quote, Lit ''../engine/WorkflowStep.js'', One is_quote])))"

definition fix_step_config :: "string \<Rightarrow> string" where
  \<comment> \<open>the substitution, with the replacement \<open>\1\2\<close>\<close>
  "fix_step_config content = re_sub step_config_re [TGrp 1, TGrp 2] content"

fun fix_unused_imports :: "string list \<Rightarrow> fs \<Rightarrow> fs \<times> event list" where
  \<comment> \<open>the loop over the listed files\<close>
  "fix_unused_imports [] fs = (fs, [Said DoneMsg])"
| "fix_unused_imports (filepath # rest) fs =
     (case fs filepath of
        None \<Rightarrow>
          (let (fs', es) = fix_unused_imports rest fs in (fs', Said (Skipping filepath) # es))
      | Some stored \<Rightarrow>
          (let content = universal_newlines stored;
               new_content = fix_step_config content in
           if new_content \<noteq> content then
             (let (fs', es) = fix_unused_imports rest (fs(filepath \<mapsto> new_content))
              in (fs', Wrote filepath new_content # Said (Fixed filepath) # es))
           else
             (let (fs', es) = fix_unused_imports rest fs
              in (fs', Said (NoChange filepath) # es))))"

section \<open>scripts/fix-workflow-coordinator-imports.py\<close>

definition files_to_check :: "string list" where
  "files_to_check =
     [''tests/blockedTaskResolution.test.ts'',
      ''tests/commitAndPush.test.ts'',
      ''tests/handleCoordinator.overrides.test.ts'',
      ''tests/happyPath.test.ts'',
      ''tests/initialPlanningAckAndEval.test.ts'',
      ''tests/processedOnce.test.ts'',
      ''tests/qaFailure.test.ts'',
      ''tests/qaFollowupExecutes.test.ts'',
      ''tests/qaPlanIterationMax.test.ts'',
      ''tests/qaPmGating.test.ts'']"

definition coordinator_import_re :: re where
  \<comment> \<open>\<open>import \{ WorkflowCoordinator \} from ['\"][^'\"]+['\"];\n\<close>\<close>
  "coordinator_import_re =
     seqs [Lit ''import { WorkflowCoordinator } from '', One is_quote,
           Rep 1 (\<lambda>c. \<not> is_quote c), One is_quote, Lit ('';'' @ [nl])]"

definition remove_coordinator :: "string \<Rightarrow> string" where
  \<comment> \<open>the three substitutions applied when the import is judged unused\<close>
  "remove_coordinator content =
     (let new_content = re_sub coordinator_import_re [TLit []] content;
          new_content = re_sub (Lit '', WorkflowCoordinator'') [TLit []] new_content;
          new_content = re_sub (Lit ''WorkflowCoordinator, '') [TLit []] new_content
      in new_content)"

fun fix_coordinator_imports :: "string list \<Rightarrow> fs \<Rightarrow> fs \<times> event list" where
  \<comment> \<open>the loop over the listed files\<close>
  "fix_coordinator_imports [] fs = (fs, [Said DoneMsg])"
| "fix_coordinator_imports (filepath # rest) fs =
     (case fs filepath of
        None \<Rightarrow>
          (let (fs', es) = fix_coordinator_imports rest fs
           in (fs', Said (Skipping filepath) # es))
      | Some stored \<Rightarrow>
          (let content = universal_newlines stored in
           if contains content ''WorkflowCoordinator'' then
             (let count = count_sub content ''WorkflowCoordinator'' in
              if count = 1 \<and> contains content ''import { WorkflowCoordinator }'' then
                (let new_content = remove_coordinator content in
                 if new_content \<noteq> content then
                   (let (fs', es) = fix_coordinator_imports rest (fs(filepath \<mapsto> new_content))
                    in (fs', Wrote filepath new_content # Said (Fixed filepath) # es))
                 else
                   (let (fs', es) = fix_coordinator_imports rest fs
                    in (fs', Said (NoChangeNeeded filepath) # es)))
              else
                (let (fs', es) = fix_coordinator_imports rest fs
                 in (fs', Said (UsedIn filepath count) # es)))
           else
             (let (fs', es) = fix_coordinator_imports rest fs
              in (fs', Said (NotFoundIn filepath) # es))))"

section \<open>refactor_dashboard.py\<close>

definition new_content :: string where
  \<open>new_content =
   ''import { cfg } from "./config.js";\<newline>'' @
   ''import { fetch } from "undici";\<newline>'' @
   ''import { logger } from "./logger.js";\<newline>'' @
   ''import { ProjectAPI } from "./dashboard/ProjectAPI.js";\<newline>'' @
   ''import { TaskAPI, CreateTaskInput, CreateTaskResult } from "./dashboard/TaskAPI.js";\<newline>'' @
   ''\<newline>'' @
   ''// Initialize API clients\<newline>'' @
   ''const projectAPI = new ProjectAPI();\<newline>'' @
   ''const taskAPI = new TaskAPI();\<newline>'' @
   ''\<newline>'' @
   ''// Re-export types for backward compatibility\<newline>'' @
   ''export type { CreateTaskInput, CreateTaskResult };\<newline>'' @
   ''\<newline>'' @
   ''/**\<newline>'' @
   '' * Fetch context snapshot for a workflow\<newline>'' @
   '' */\<newline>'' @
   ''export async function fetchContext(workflowId: string) {\<newline>'' @
   ''  try {\<newline>'' @
   ''    // Use context-by-workflow endpoint if available in cfg.dashboardContextEndpoint (overrideable)\<newline>'' @
   ''    if (cfg.dashboardContextEndpoint && cfg.dashboardContextEndpoint.startsWith('http')) {\<newline>'' @
   ''      const url = new URL(cfg.dashboardContextEndpoint);\<newline>'' @
   ''      url.searchParams.set('workflow_id', workflowId);\<newline>'' @
   ''      url.searchParams.set('limit', '5');\<newline>'' @
   ''      const r = await fetch(url.toString(), {\<newline>'' @
   ''        headers: { "Authorization": `Bearer ${cfg.dashboardApiKey}` }\<newline>'' @
   ''      });\<newline>'' @
   ''      if (!r.ok) throw new Error(`dashboard ${r.status}`);\<newline>'' @
   ''      const data = await r.json();\<newline>'' @
   ''      return data;\<newline>'' @
   ''    }\<newline>'' @
   ''\<newline>'' @
   ''    const r = await fetch(`${cfg.dashboardBaseUrl.replace(/'' @ [CHR 0x5C] @ ''/$/, '' @ [squote] @ [squote] @ '')}/context/by-workflow?workflow_id=${encodeURIComponent(workflowId)}&limit=5`, {\<newline>'' @
   ''      headers: { "Authorization": `Bearer ${cfg.dashboardApiKey}` }\<newline>'' @
   ''    });\<newline>'' @
   ''    if (!r.ok) throw new Error(`dashboard ${r.status}`);\<newline>'' @
   ''    const data = await r.json();\<newline>'' @
   ''    return data;\<newline>'' @
   ''  } catch {\<newline>'' @
   ''    return { projectTree: "", fileHotspots: "", limits: "", personaHints: "" };\<newline>'' @
   ''  }\<newline>'' @
   ''}\<newline>'' @
   ''\<newline>'' @
   ''/**\<newline>'' @
   '' * Record an event to dashboard\<newline>'' @
   '' */\<newline>'' @
   ''export async function recordEvent(ev: any) {\<newline>'' @
   ''  try {\<newline>'' @
   ''    const endpoint = `${cfg.dashboardBaseUrl.replace(/'' @ [CHR 0x5C] @ ''/$/, '' @ [squote] @ [squote] @ '')}/v1/events`;\<newline>'' @
   ''    await fetch(endpoint, {\<newline>'' @
   ''      method: "POST",\<newline>'' @
   ''      headers: {\<newline>'' @
   ''        "Authorization": `Bearer ${cfg.dashboardApiKey}`,\<newline>'' @
   ''        "Content-Type": "application/json"\<newline>'' @
   ''      },\<newline>'' @
   ''      body: JSON.stringify(ev)\<newline>'' @
   ''    });\<newline>'' @
   ''  } catch (e) {\<newline>'' @
   ''    logger.warn("dashboard event post failed", { error: e, event: ev });\<newline>'' @
   ''  }\<newline>'' @
   ''}\<newline>'' @
   ''\<newline>'' @
   ''// Delegate project operations to ProjectAPI\<newline>'' @
   ''export async function fetchProjectStatus(projectId: string | null | undefined) {\<newline>'' @
   ''  return projectAPI.fetchProjectStatus(projectId);\<newline>'' @
   ''}\<newline>'' @
   ''\<newline>'' @
   ''export async function fetchProjectMilestones(projectId: string | null | undefined) {\<newline>'' @
   ''  return projectAPI.fetchProjectMilestones(projectId);\<newline>'' @
   ''}\<newline>'' @
   ''\<newline>'' @
   ''export async function fetchProjectStatusDetails(projectId: string | null | undefined) {\<newline>'' @
   ''  return projectAPI.fetchProjectStatusDetails(projectId);\<newline>'' @
   ''}\<newline>'' @
   ''\<newline>'' @
   ''export async function fetchProjectStatusSummary(projectId: string | null | undefined) {\<newline>'' @
   ''  return projectAPI.fetchProjectStatusSummary(projectId);\<newline>'' @
   ''}\<newline>'' @
   ''\<newline>'' @
   ''export async function fetchProjectTasks(projectId: string) {\<newline>'' @
   ''  return projectAPI.fetchProjectTasks(projectId);\<newline>'' @
   ''}\<newline>'' @
   ''\<newline>'' @
   ''// Delegate task operations to TaskAPI\<newline>'' @
   ''export async function createDashboardTask(input: CreateTaskInput): Promise<CreateTaskResult | null> {\<newline>'' @
   ''  return taskAPI.createDashboardTask(input);\<newline>'' @
   ''}\<newline>'' @
   ''\<newline>'' @
   ''export async function fetchTask(taskId: string): Promise<any | null> {\<newline>'' @
   ''  return taskAPI.fetchTask(taskId);\<newline>'' @
   ''}\<newline>'' @
   ''\<newline>'' @
   ''export async function updateTaskStatus(\<newline>'' @
   ''  taskId: string,\<newline>'' @
   ''  status: string,\<newline>'' @
   ''  projectId?: string,\<newline>'' @
   ''  lockVersion?: number\<newline>'' @
   ''): Promise<CreateTaskResult> {\<newline>'' @
   ''  return taskAPI.updateTaskStatus(taskId, status, projectId, lockVersion);\<newline>'' @
   ''}\<newline>''\<close>

definition dashboard_dir :: string where
  "dashboard_dir = ''/Users/jamescoghlan/code/multi-agent-machine-client/src''"

definition dashboard_path :: string where
  "dashboard_path = dashboard_dir @ ''/dashboard.ts''"

definition refactor_dashboard :: "string set \<Rightarrow> fs \<Rightarrow> py_error + fs \<times> event list" where
  \<comment> \<open>\<open>dirs\<close> are the directories that exist: opening for writing creates the file, not
      its directory\<close>
  "refactor_dashboard dirs fs =
     (if dashboard_dir \<in> dirs then
        Inr (fs(dashboard_path \<mapsto> new_content),
             [Wrote dashboard_path new_content, Said Refactored,
              Said (NewFileSize (length (split_on nl new_content)))])
      else Inl FileNotFoundError)"

section \<open>Notions used in the statements and proofs\<close>

definition fix_coordinator :: "string \<Rightarrow> string" where
  \<comment> \<open>the text fix-workflow-coordinator-imports arrives at for a text it has read: the
      substitutions behind its checks, the text itself when a check fails\<close>
  "fix_coordinator content =
     (if contains content ''WorkflowCoordinator'' \<and> count_sub content ''WorkflowCoordinator'' = 1 \<and>
         contains content ''import { WorkflowCoordinator }''
      then remove_coordinator content else content)"

definition step_config_changes :: "fs \<Rightarrow> string \<Rightarrow> bool" where
  \<comment> \<open>the file holds a text and the substitution of fix-unused-imports alters the text
      read from it\<close>
  "step_config_changes fs p =
     (case fs p of
        None \<Rightarrow> False
      | Some stored \<Rightarrow> fix_step_config (universal_newlines stored) \<noteq> universal_newlines stored)"

definition coordinator_changes :: "fs \<Rightarrow> string \<Rightarrow> bool" where
  \<comment> \<open>the file holds a text and fix-workflow-coordinator-imports alters the text read
      from it\<close>
  "coordinator_changes fs p =
     (case fs p of
        None \<Rightarrow> False
      | Some stored \<Rightarrow> fix_coordinator (universal_newlines stored) \<noteq> universal_newlines stored)"

definition cleanup_changes :: "fs \<Rightarrow> string \<times> (nat \<times> string) list \<Rightarrow> bool" where
  \<comment> \<open>the file holds a text and the substitutions for its items alter the text read
      from it\<close>
  "cleanup_changes fs entry =
     (case fs (fst entry) of
        None \<Rightarrow> False
      | Some stored \<Rightarrow>
          apply_items (universal_newlines stored) (sorted_desc (snd entry)) \<noteq>
          Inr (universal_newlines stored))"

definition cleanup_result :: "fs \<Rightarrow> unused \<Rightarrow> string \<Rightarrow> string option" where
  \<comment> \<open>the text the dead-code remover arrives at for the file at \<open>p\<close>, from the text read
      there and the items collected for \<open>p\<close>\<close>
  "cleanup_result fs u p =
     (case (fs p, map_of u p) of
        (Some stored, Some items) \<Rightarrow>
          (case apply_items (universal_newlines stored) (sorted_desc items) of
             Inr content \<Rightarrow> Some content
           | Inl e \<Rightarrow> None)
      | _ \<Rightarrow> None)"

definition blocked :: "string \<Rightarrow> (string \<Rightarrow> py_error option) \<Rightarrow> fs \<Rightarrow> string \<Rightarrow> py_error option" where
  \<comment> \<open>the exception with which the dead-code remover ends at a collected path: the path
      exists and lies outside the working directory, or reading it raises\<close>
  "blocked wd bad fs p =
     (if \<not> path_exists bad fs p then None
      else (case relative_to p wd of
              Inl e \<Rightarrow> Some e
            | Inr _ \<Rightarrow> (case read_text bad fs p of Inl e \<Rightarrow> Some e | Inr _ \<Rightarrow> None)))"

definition processed :: "string \<Rightarrow> (string \<Rightarrow> py_error option) \<Rightarrow> fs \<Rightarrow> unused \<Rightarrow> unused" where
  \<comment> \<open>the collected entries the dead-code remover gets through: those before the first one
      at which it ends with an exception\<close>
  "processed wd bad fs u = takeWhile (\<lambda>entry. blocked wd bad fs (fst entry) = None) u"

fun needs :: "re \<Rightarrow> string \<Rightarrow> bool" where
  \<comment> \<open>every match of the pattern contains the text \<open>x\<close>, by a literal of the pattern\<close>
  "needs (Lit l) x = contains l x"
| "needs (One p) x = False"
| "needs (Rep lo p) x = False"
| "needs (Seq a b) x = (needs a x \<or> needs b x)"
| "needs (Grp n a) x = needs a x"

fun stays :: "re \<Rightarrow> string \<Rightarrow> bool" where
  \<comment> \<open>a sufficient test that no match of the pattern on \<open>y @ z\<close> reaches into \<open>z\<close>\<close>
  "stays (Lit l) z = list_all (\<lambda>k. \<not> prefix (drop k l) z) [0 ..< length l]"
| "stays (One p) z = (case z of [] \<Rightarrow> False | c # _ \<Rightarrow> \<not> p c)"
| "stays (Rep lo p) z = (case z of [] \<Rightarrow> False | c # _ \<Rightarrow> \<not> p c)"
| "stays (Seq a b) z = (stays a z \<and> stays b z)"
| "stays (Grp n a) z = stays a z"

definition star_then :: "(string \<Rightarrow> 'a list) \<Rightarrow> (char \<Rightarrow> bool) \<Rightarrow> string \<Rightarrow> 'a list" where
  \<comment> \<open>what follows a greedy repetition of a class, tried from the longest run down\<close>
  "star_then f p u = concat (map (\<lambda>k. f (drop k u)) (rev [0 ..< Suc (length (takeWhile p u))]))"

definition after_header :: "string \<Rightarrow> string option" where
  \<comment> \<open>the text after a match of \<open>import\s+{\<close> at the head of \<open>s\<close>\<close>
  "after_header s =
     (case rmatch (Seq (Lit ''import'') (Seq (Rep 1 is_space) (Lit ''{''))) s (\<lambda>_. None) of
        [] \<Rightarrow> None
      | (u, _) # _ \<Rightarrow> Some u)"

definition step_config_rest :: re where
  \<comment> \<open>the part of the pattern of fix-unused-imports after its first group\<close>
  "step_config_rest =
     Seq (Lit '', WorkflowStepConfig'')
       (Grp 2 (seqs [Rep 0 not_brace, Lit ''}'', Rep 1 is_space, Lit ''from'', Rep 1 is_space,
                     One is_quote, Lit ''../engine/WorkflowStep.js'', One is_quote]))"

definition import_line :: string where
  \<comment> \<open>the import line of claim C4\<close>
  "import_line =
     ''import { A, WorkflowStepConfig, B } from '' @ [dquote] @ ''../engine/WorkflowStep.js'' @ [dquote]"

definition fixed_import_line :: string where
  \<comment> \<open>the same line without the unused name\<close>
  "fixed_import_line =
     ''import { A, B } from '' @ [dquote] @ ''../engine/WorkflowStep.js'' @ [dquote]"

definition unused_foo_line :: string where
  \<comment> \<open>the diagnostic of claim C1: symbol \<open>foo\<close>, line 3\<close>
  "unused_foo_line =
     ''  3:10  warning  '' @ [squote] @ ''foo'' @ [squote] @ '' is defined but never used''"

section \<open>Properties of the text primitives\<close>

lemma split_on_not_Nil [simp]: "split_on d s \<noteq> []"
  by (induction s) (auto split: list.splits)

lemma join_on_Cons: "ls \<noteq> [] \<Longrightarrow> join_on d (l # ls) = l @ d # join_on d ls"
  by (cases ls) auto

lemma join_split [simp]: "join_on d (split_on d s) = s"
proof (induction s)
  case Nil
  show ?case by simp
next
  case (Cons c cs)
  show ?case
  proof (cases "c = d")
    case True
    with Cons show ?thesis by (simp add: join_on_Cons)
  next
    case False
    obtain l ls where sp: "split_on d cs = l # ls"
      by (cases "split_on d cs") auto
    with Cons have "join_on d (l # ls) = cs" by simp
    then have "join_on d ((c # l) # ls) = c # cs"
      by (cases ls) auto
    with False sp show ?thesis by simp
  qed
qed

lemma split_on_no_sep: "l \<in> set (split_on d s) \<Longrightarrow> d \<notin> set l"
proof (induction s arbitrary: l)
  case Nil
  then show ?case by simp
next
  case (Cons c cs)
  then show ?case
    by (cases "split_on d cs") (auto split: if_splits)
qed

lemma split_on_free: "d \<notin> set l \<Longrightarrow> split_on d l = [l]"
  by (induction l) auto

lemma split_on_append_sep:
  "d \<notin> set l \<Longrightarrow> split_on d (l @ d # s) = l # split_on d s"
  by (induction l) auto

lemma split_join:
  "ls \<noteq> [] \<Longrightarrow> \<forall>l\<in>set ls. d \<notin> set l \<Longrightarrow> split_on d (join_on d ls) = ls"
proof (induction ls rule: join_on.induct)
  case (1 d)
  then show ?case by simp
next
  case (2 d l)
  then show ?case by (simp add: split_on_free)
next
  case (3 d l l' ls)
  then show ?case by (simp add: split_on_append_sep)
qed

lemma contains_iff: "contains s sub \<longleftrightarrow> (\<exists>a b. s = a @ sub @ b)"
proof (induction s)
  case Nil
  show ?case by auto
next
  case (Cons c cs)
  show ?case
  proof
    assume "contains (c # cs) sub"
    then consider "prefix sub (c # cs)" | "contains cs sub" by auto
    then show "\<exists>a b. c # cs = a @ sub @ b"
    proof cases
      case 1
      then obtain b where "c # cs = sub @ b" by (auto simp: prefix_def)
      then have "c # cs = [] @ sub @ b" by simp
      then show ?thesis by blast
    next
      case 2
      with Cons obtain a b where "cs = a @ sub @ b" by auto
      then have "c # cs = (c # a) @ sub @ b" by simp
      then show ?thesis by blast
    qed
  next
    assume "\<exists>a b. c # cs = a @ sub @ b"
    then obtain a b where eq: "c # cs = a @ sub @ b" by auto
    show "contains (c # cs) sub"
    proof (cases a)
      case Nil
      with eq have "prefix sub (c # cs)" by (simp add: prefix_def)
      then show ?thesis by simp
    next
      case (Cons x a')
      with eq have "cs = a' @ sub @ b" by simp
      with Cons.IH have "contains cs sub" by auto
      then show ?thesis by simp
    qed
  qed
qed

section \<open>Properties of matching and substitution\<close>

lemma rmatch_suffix:
  "(s', g') \<in> set (rmatch r s g) \<Longrightarrow> suffix s' s"
proof (induction r arbitrary: s g s' g')
  case (Lit l)
  then show ?case by (auto split: if_splits simp: suffix_drop)
next
  case (One p)
  then show ?case by (auto split: list.splits if_splits simp: suffix_def)
next
  case (Rep lo p)
  then show ?case by (auto simp: suffix_drop)
next
  case (Seq a b)
  from Seq.prems obtain m gm where
    m: "(m, gm) \<in> set (rmatch a s g)" and r: "(s', g') \<in> set (rmatch b m gm)"
    by auto
  from Seq.IH(1)[OF m] Seq.IH(2)[OF r] show ?case
    by (rule suffix_order.trans[rotated])
next
  case (Grp n a)
  then show ?case by auto
qed

lemma rmatch_length: "(s', g') \<in> set (rmatch r s g) \<Longrightarrow> length s' \<le> length s"
  by (drule rmatch_suffix) (rule suffix_length_le)

lemma expand_chars:
  "\<forall>n x. g n = Some x \<longrightarrow> set x \<subseteq> A \<Longrightarrow> \<forall>l. TLit l \<in> set t \<longrightarrow> set l \<subseteq> A \<Longrightarrow>
   set (expand t g) \<subseteq> A"
proof (induction t g rule: expand.induct)
  case (3 n t g)
  then have "set (expand t g) \<subseteq> A" by simp
  moreover have "set (case g n of None \<Rightarrow> [] | Some x \<Rightarrow> x) \<subseteq> A"
    using "3.prems"(1) by (cases "g n") auto
  ultimately show ?case by simp
qed auto

lemma rmatch_groups_chars:
  "(s', g') \<in> set (rmatch r s g) \<Longrightarrow> set s \<subseteq> A \<Longrightarrow> \<forall>n x. g n = Some x \<longrightarrow> set x \<subseteq> A \<Longrightarrow>
   \<forall>n x. g' n = Some x \<longrightarrow> set x \<subseteq> A"
proof (induction r arbitrary: s g s' g')
  case (Seq a b)
  from Seq.prems(1) obtain m gm where
    m: "(m, gm) \<in> set (rmatch a s g)" and r: "(s', g') \<in> set (rmatch b m gm)"
    by auto
  from rmatch_suffix[OF m] Seq.prems(2) have "set m \<subseteq> A"
    by (auto simp: suffix_def)
  moreover from Seq.IH(1)[OF m Seq.prems(2,3)] have "\<forall>n x. gm n = Some x \<longrightarrow> set x \<subseteq> A" .
  ultimately show ?case using Seq.IH(2)[OF r] by blast
next
  case (Grp n a)
  from Grp.prems(1) obtain ga where
    m: "(s', ga) \<in> set (rmatch a s g)" and g': "g' = ga(n \<mapsto> take (length s - length s') s)"
    by auto
  from Grp.IH[OF m Grp.prems(2,3)] have "\<forall>k x. ga k = Some x \<longrightarrow> set x \<subseteq> A" .
  moreover have "set (take (length s - length s') s) \<subseteq> A"
    using Grp.prems(2) by (meson set_take_subset subset_trans)
  ultimately show ?case using g' by auto
qed (auto split: if_splits list.splits)

lemma first_match_mem:
  "first_match r adv s = Some (s', g') \<Longrightarrow> (s', g') \<in> set (rmatch r s (\<lambda>_. None))"
proof -
  assume "first_match r adv s = Some (s', g')"
  then obtain i where "i < length (rmatch r s (\<lambda>_. None))"
    and "rmatch r s (\<lambda>_. None) ! i = (s', g')"
    by (auto simp: first_match_def find_Some_iff)
  then show ?thesis by (metis nth_mem)
qed

lemma sub_go_chars:
  "set s \<subseteq> A \<Longrightarrow> \<forall>l. TLit l \<in> set t \<longrightarrow> set l \<subseteq> A \<Longrightarrow> set (sub_go r t adv s) \<subseteq> A"
proof (induction r t adv s rule: sub_go.induct)
  case (1 r t adv s)
  show ?case
  proof (cases "first_match r adv s")
    case None
    with 1 show ?thesis
      by (cases s) (auto simp: sub_go.simps[of r t adv])
  next
    case (Some m)
    obtain s' g' where m: "m = (s', g')" by (cases m)
    from Some m have mem: "(s', g') \<in> set (rmatch r s (\<lambda>_. None))"
      by (simp add: first_match_mem)
    from rmatch_suffix[OF mem] "1.prems"(1) have s': "set s' \<subseteq> A"
      by (auto simp: suffix_def)
    from rmatch_groups_chars[OF mem "1.prems"(1)] have "\<forall>n x. g' n = Some x \<longrightarrow> set x \<subseteq> A"
      by simp
    then have ex: "set (expand t g') \<subseteq> A"
      using "1.prems"(2) by (rule expand_chars)
    show ?thesis
    proof (cases "length s' < length s")
      case True
      from "1.IH"(2)[OF Some m[symmetric] True s' "1.prems"(2)] ex Some m True
      show ?thesis by (simp add: sub_go.simps[of r t adv s])
    next
      case False
      show ?thesis
      proof (cases adv)
        case True
        with False Some m ex "1.prems"(1) show ?thesis
          by (simp add: sub_go.simps[of r t True s])
      next
        case F: False
        from "1.IH"(3)[OF Some m[symmetric] False F "1.prems"] ex Some m False F
        show ?thesis by (simp add: sub_go.simps[of r t False s])
      qed
    qed
  qed
qed

lemma re_sub_chars:
  "set s \<subseteq> A \<Longrightarrow> \<forall>l. TLit l \<in> set t \<longrightarrow> set l \<subseteq> A \<Longrightarrow> set (re_sub r t s) \<subseteq> A"
  unfolding re_sub_def by (rule sub_go_chars)

section \<open>The dashboard rewrite\<close>

text \<open>
  Claim C2. When the directory of the target exists, the run succeeds and afterwards the
  content of \<open>src/dashboard.ts\<close> is the constant text, character for character, whatever
  the file system held before.
\<close>

theorem dashboard_rewrite:
  "dashboard_dir \<in> dirs \<Longrightarrow>
   \<exists>fs' es. refactor_dashboard dirs fs = Inr (fs', es) \<and> fs' dashboard_path = Some new_content"
  by (simp add: refactor_dashboard_def)

theorem dashboard_rewrite_witness:
  "dashboard_dir \<in> {dashboard_dir} \<and>
   (\<exists>fs' es. refactor_dashboard {dashboard_dir} [dashboard_path \<mapsto> ''old''] = Inr (fs', es) \<and>
      fs' dashboard_path = Some new_content)"
  using dashboard_rewrite [of "{dashboard_dir}" "[dashboard_path \<mapsto> ''old'']"]
  by simp

section \<open>remove_parameter\<close>

text \<open>
  Claim C9. For every content, parameter name and line number greater than the number of
  lines of the content, \<open>remove_parameter\<close> returns the content unchanged; no list
  access happens, so no IndexError arises.
\<close>

theorem remove_parameter_beyond_end:
  "int (length (split_on nl content)) < line_num \<Longrightarrow>
   remove_parameter content param line_num = Inr content"
  by (simp add: remove_parameter_def Let_def)

theorem remove_parameter_beyond_end_witness:
  "int (length (split_on nl (''a'' @ [nl] @ ''b''))) < 3 \<and>
   remove_parameter (''a'' @ [nl] @ ''b'') ''x'' 3 = Inr (''a'' @ [nl] @ ''b'')"
  using remove_parameter_beyond_end [of "''a'' @ [nl] @ ''b''" 3 "''x''"]
  by (simp add: nl_def)

lemma edit_line_no_nl: "nl \<notin> set line \<Longrightarrow> nl \<notin> set (edit_line param line)"
proof -
  assume a: "nl \<notin> set line"
  define A where "A = - {nl}"
  have l: "set line \<subseteq> A" using a by (auto simp: A_def)
  have 1: "set (re_sub (param_after_comma_re param) [TLit '',''] line) \<subseteq> A"
    by (rule re_sub_chars[OF l]) (simp add: A_def nl_def)
  have 2: "set (re_sub (param_first_re param) [TLit ''(''] (re_sub (param_after_comma_re param) [TLit '',''] line)) \<subseteq> A"
    by (rule re_sub_chars[OF 1]) (simp add: A_def nl_def)
  have 3: "set (edit_line param line) \<subseteq> A"
    unfolding edit_line_def Let_def
    by (rule re_sub_chars[OF 2]) (simp add: A_def nl_def)
  then show ?thesis by (auto simp: A_def)
qed

text \<open>
  Claim C8. For every content and every line number from 1 to the number of lines,
  \<open>remove_parameter\<close> returns a content with the same number of lines in which every
  line other than the one at that line number is the line of the input.
\<close>

theorem remove_parameter_one_line:
  assumes "1 \<le> line_num" and "line_num \<le> int (length (split_on nl content))"
  shows "\<exists>content'. remove_parameter content param line_num = Inr content' \<and>
           length (split_on nl content') = length (split_on nl content) \<and>
           (\<forall>i < length (split_on nl content).
              int i \<noteq> line_num - 1 \<longrightarrow> split_on nl content' ! i = split_on nl content ! i)"
proof -
  define lines where "lines = split_on nl content"
  define j where "j = nat (line_num - 1)"
  define lines' where "lines' = lines[j := edit_line param (lines ! j)]"
  from assms have j: "j < length lines" and ji: "int j = line_num - 1"
    by (auto simp: j_def lines_def)
  from assms have idx: "py_index (length lines) (line_num - 1) = Inr j"
    by (auto simp: py_index_def j_def lines_def)
  have res: "remove_parameter content param line_num = Inr (join_on nl lines')"
    using assms idx by (simp add: remove_parameter_def Let_def lines_def[symmetric] lines'_def)
  have "lines ! j \<in> set (split_on nl content)"
    using j by (simp add: lines_def)
  then have "nl \<notin> set (lines ! j)" by (rule split_on_no_sep)
  then have e: "nl \<notin> set (edit_line param (lines ! j))" by (rule edit_line_no_nl)
  have "\<forall>l\<in>set lines'. nl \<notin> set l"
  proof
    fix l assume "l \<in> set lines'"
    then have "l \<in> insert (edit_line param (lines ! j)) (set lines)"
      unfolding lines'_def using set_update_subset_insert by fastforce
    with e show "nl \<notin> set l" by (auto simp: lines_def split_on_no_sep)
  qed
  moreover have "lines' \<noteq> []" using j by (auto simp: lines'_def)
  ultimately have sp: "split_on nl (join_on nl lines') = lines'" by (simp add: split_join)
  show ?thesis
    using res sp ji by (auto simp: lines'_def lines_def[symmetric])
qed

theorem remove_parameter_one_line_witness:
  "(1::int) \<le> 2 \<and> 2 \<le> int (length (split_on nl (''a'' @ [nl] @ ''b''))) \<and>
   (\<exists>content'. remove_parameter (''a'' @ [nl] @ ''b'') ''x'' 2 = Inr content' \<and>
      length (split_on nl content') = length (split_on nl (''a'' @ [nl] @ ''b'')) \<and>
      (\<forall>i < length (split_on nl (''a'' @ [nl] @ ''b'')).
         int i \<noteq> 2 - 1 \<longrightarrow> split_on nl content' ! i = split_on nl (''a'' @ [nl] @ ''b'') ! i))"
  using remove_parameter_one_line [of 2 "''a'' @ [nl] @ ''b''" "''x''"]
  by (simp add: nl_def)

section \<open>get_unused_items\<close>

lemma scan_line_no_path:
  "\<not> startswith (strip line) ''/Users'' \<Longrightarrow> scan_line (None, u) line = (None, u)"
  by (simp split: option.splits prod.splits)

lemma foldl_scan_no_path:
  "\<forall>l\<in>set pre. \<not> startswith (strip l) ''/Users'' \<Longrightarrow>
   foldl scan_line (None, u) pre = (None, u)"
  by (induction pre) (simp_all add: scan_line_no_path del: scan_line.simps)

lemma scan_lines_drop_prefix:
  "\<forall>l\<in>set pre. \<not> startswith (strip l) ''/Users'' \<Longrightarrow>
   scan_lines (pre @ rest) = scan_lines rest"
  by (simp add: scan_lines_def foldl_scan_no_path del: scan_line.simps)

lemma dd_append_keys: "fst ` set (dd_append k v u) = insert k (fst ` set u)"
  by (induction k v u rule: dd_append.induct) auto

lemma dd_append_fst: "(a, b) \<in> set (dd_append k v u) \<Longrightarrow> a = k \<or> a \<in> fst ` set u"
  using dd_append_keys[of k v u] by (metis fst_conv image_eqI insertE)

lemma scan_line_keys:
  assumes "scan_line (cur, u) line = (cur', u')"
    and "\<forall>f. cur = Some f \<longrightarrow> f \<in> K" and "fst ` set u \<subseteq> K"
    and "startswith (strip line) ''/Users'' \<longrightarrow> strip line \<in> K"
  shows "(\<forall>f. cur' = Some f \<longrightarrow> f \<in> K) \<and> fst ` set u' \<subseteq> K"
  using assms by (auto dest!: dd_append_fst split: if_splits option.splits prod.splits)

lemma foldl_scan_keys:
  "foldl scan_line (cur, u) lines = (cur', u') \<Longrightarrow>
   \<forall>f. cur = Some f \<longrightarrow> f \<in> K \<Longrightarrow> fst ` set u \<subseteq> K \<Longrightarrow>
   \<forall>l\<in>set lines. startswith (strip l) ''/Users'' \<longrightarrow> strip l \<in> K \<Longrightarrow>
   (\<forall>f. cur' = Some f \<longrightarrow> f \<in> K) \<and> fst ` set u' \<subseteq> K"
proof (induction lines arbitrary: cur u)
  case Nil
  then show ?case by simp
next
  case (Cons l ls)
  obtain c1 u1 where s1: "scan_line (cur, u) l = (c1, u1)" by (cases "scan_line (cur, u) l")
  have k1: "(\<forall>f. c1 = Some f \<longrightarrow> f \<in> K) \<and> fst ` set u1 \<subseteq> K"
    using scan_line_keys[OF s1 Cons.prems(2,3)] Cons.prems(4) by simp
  from Cons.prems(1) s1 have "foldl scan_line (c1, u1) ls = (cur', u')" by simp
  from Cons.IH[OF this] k1 Cons.prems(4) show ?case by simp
qed

lemma scan_lines_keys:
  "(f, items) \<in> set (scan_lines lines) \<Longrightarrow>
   \<exists>l\<in>set lines. startswith (strip l) ''/Users'' \<and> f = strip l"
proof -
  assume a: "(f, items) \<in> set (scan_lines lines)"
  define K where "K = {strip l | l. l \<in> set lines \<and> startswith (strip l) ''/Users''}"
  obtain c u where r: "foldl scan_line (None, []) lines = (c, u)"
    by (cases "foldl scan_line (None, []) lines")
  have "(\<forall>f. c = Some f \<longrightarrow> f \<in> K) \<and> fst ` set u \<subseteq> K"
    by (rule foldl_scan_keys[OF r]) (auto simp: K_def)
  moreover from a r have "f \<in> fst ` set u" by (force simp: scan_lines_def)
  ultimately have "f \<in> K" by auto
  then show ?thesis by (auto simp: K_def)
qed

text \<open>
  Claim C10. A diagnostic is attributed to a file only when a path line (a line whose
  stripped form starts with \<open>/Users\<close>) came earlier in the lint output: the lines
  before the first path line add nothing to the result, and every file of the result is
  the stripped form of a path line of the remaining lines.
\<close>

theorem get_unused_items_needs_path_line:
  assumes "split_on nl (out @ err) = pre @ rest"
    and "\<forall>l\<in>set pre. \<not> startswith (strip l) ''/Users''"
  shows "get_unused_items out err = scan_lines rest \<and>
         (\<forall>(f, items) \<in> set (get_unused_items out err).
            \<exists>l\<in>set rest. startswith (strip l) ''/Users'' \<and> f = strip l)"
proof -
  have eq: "get_unused_items out err = scan_lines rest"
    using assms by (simp add: get_unused_items_def scan_lines_drop_prefix)
  then show ?thesis by (auto dest: scan_lines_keys)
qed

theorem get_unused_items_needs_path_line_witness:
  "split_on nl
     ((''  3:10  warning  '' @ [squote] @ ''foo'' @ [squote] @ '' is defined but never used'' @ [nl] @
       ''/Users/a.ts'' @ [nl] @
       ''  4:1  warning  '' @ [squote] @ ''bar'' @ [squote] @ '' is defined but never used'') @ []) =
   [''  3:10  warning  '' @ [squote] @ ''foo'' @ [squote] @ '' is defined but never used''] @
   [''/Users/a.ts'',
    ''  4:1  warning  '' @ [squote] @ ''bar'' @ [squote] @ '' is defined but never used''] \<and>
   \<not> startswith
       (strip (''  3:10  warning  '' @ [squote] @ ''foo'' @ [squote] @ '' is defined but never used''))
       ''/Users'' \<and>
   get_unused_items
     (''  3:10  warning  '' @ [squote] @ ''foo'' @ [squote] @ '' is defined but never used'' @ [nl] @
      ''/Users/a.ts'' @ [nl] @
      ''  4:1  warning  '' @ [squote] @ ''bar'' @ [squote] @ '' is defined but never used'') [] =
   [(''/Users/a.ts'', [(4, ''bar'')])]"
proof -
  let ?d1 = "''  3:10  warning  '' @ [squote] @ ''foo'' @ [squote] @ '' is defined but never used''"
  let ?d2 = "''  4:1  warning  '' @ [squote] @ ''bar'' @ [squote] @ '' is defined but never used''"
  let ?out = "?d1 @ [nl] @ ''/Users/a.ts'' @ [nl] @ ?d2"
  have h1: "split_on nl (?out @ []) = [?d1] @ [''/Users/a.ts'', ?d2]"
    by (simp add: nl_def squote_def)
  have h2: "\<forall>l\<in>set [?d1]. \<not> startswith (strip l) ''/Users''"
    by (simp add: strip_def startswith_def is_space_def squote_def)
  have h3: "scan_lines [''/Users/a.ts'', ?d2] = [(''/Users/a.ts'', [(4, ''bar'')])]"
    by code_simp
  from get_unused_items_needs_path_line [OF h1 h2] h1 h2 h3 show ?thesis
    by simp
qed

section \<open>main of the dead-code remover\<close>

lemma py_index_nat: "int n \<le> int len \<Longrightarrow> 0 < len \<Longrightarrow> \<exists>j. py_index len (int n - 1) = Inr j"
  by (cases n) (auto simp: py_index_def)

lemma remove_parameter_nat: "\<exists>c. remove_parameter content param (int n) = Inr c"
proof (cases "int n \<le> int (length (split_on nl content))")
  case True
  have "0 < length (split_on nl content)" by simp
  from py_index_nat[OF True this] obtain j where
    "py_index (length (split_on nl content)) (int n - 1) = Inr j" by auto
  with True show ?thesis by (simp add: remove_parameter_def Let_def)
next
  case False
  then show ?thesis by (simp add: remove_parameter_def Let_def)
qed

lemma apply_items_total: "\<exists>c. apply_items content items = Inr c"
proof (induction content items rule: apply_items.induct)
  case (1 content)
  show ?case by simp
next
  case (2 content line_num symbol items)
  show ?case
  proof (cases "has_keyword (remove_from_import content symbol)")
    case True
    obtain c where c: "remove_parameter (remove_from_import content symbol) symbol (int line_num) = Inr c"
      using remove_parameter_nat by blast
    from "2.IH"(1)[OF refl True c] True c show ?thesis by (simp add: Let_def)
  next
    case False
    from "2.IH"(2)[OF refl False] False show ?thesis by (simp add: Let_def)
  qed
qed

section \<open>Events and collected entries\<close>

lemma written_append: "written (xs @ ys) = written xs @ written ys"
  by (induction xs rule: written.induct) auto

lemma dd_append_distinct:
  "distinct (map fst u) \<Longrightarrow> distinct (map fst (dd_append k v u))"
proof (induction k v u rule: dd_append.induct)
  case (1 k v)
  show ?case by simp
next
  case (2 k v k' vs rest)
  show ?case
  proof (cases "k = k'")
    case True
    with 2 show ?thesis by simp
  next
    case False
    have "fst ` set (dd_append k v rest) = insert k (fst ` set rest)"
      by (rule dd_append_keys)
    with False 2 show ?thesis by auto
  qed
qed

lemma scan_line_distinct:
  "distinct (map fst u) \<Longrightarrow> distinct (map fst (snd (scan_line (cur, u) line)))"
  by (auto simp: dd_append_distinct split: option.splits prod.splits)

lemma foldl_scan_distinct:
  "distinct (map fst (snd st)) \<Longrightarrow> distinct (map fst (snd (foldl scan_line st lines)))"
proof (induction lines arbitrary: st)
  case Nil
  then show ?case by simp
next
  case (Cons l ls)
  obtain cur u where st: "st = (cur, u)" by (cases st)
  with Cons.prems have "distinct (map fst (snd (scan_line st l)))"
    using scan_line_distinct[of u cur l] by simp
  from Cons.IH[OF this] show ?case by simp
qed

lemma get_unused_items_distinct: "distinct (map fst (get_unused_items out err))"
  unfolding get_unused_items_def scan_lines_def
  by (rule foldl_scan_distinct) simp

lemma written_snoc_tests [simp]: "written (tr @ [RanTests]) = written tr"
  by (simp add: written_append)

section \<open>Patterns that need a literal\<close>

lemma rmatch_needs:
  "needs r x \<Longrightarrow> (s', g') \<in> set (rmatch r s g) \<Longrightarrow> \<exists>a b. s = a @ x @ b @ s'"
proof (induction r arbitrary: s g s' g')
  case (Lit l)
  from Lit.prems(2) have p: "prefix l s" and s': "s' = drop (length l) s"
    by (auto split: if_splits)
  from Lit.prems(1) obtain a b where "l = a @ x @ b" by (auto simp: contains_iff)
  moreover from p s' have "s = l @ s'" by (auto simp: prefix_def)
  ultimately have "s = a @ x @ b @ s'" by simp
  then show ?case by blast
next
  case (One p)
  then show ?case by simp
next
  case (Rep lo p)
  then show ?case by simp
next
  case (Seq r1 r2)
  from Seq.prems(2) obtain m gm where
    m: "(m, gm) \<in> set (rmatch r1 s g)" and r: "(s', g') \<in> set (rmatch r2 m gm)"
    by auto
  from Seq.prems(1) consider "needs r1 x" | "needs r2 x" by auto
  then show ?case
  proof cases
    case 1
    from Seq.IH(1)[OF 1 m] obtain a b where "s = a @ x @ b @ m" by blast
    moreover from rmatch_suffix[OF r] obtain u where "m = u @ s'" by (auto simp: suffix_def)
    ultimately have "s = a @ x @ (b @ u) @ s'" by simp
    then show ?thesis by blast
  next
    case 2
    from Seq.IH(2)[OF 2 r] obtain a b where "m = a @ x @ b @ s'" by blast
    moreover from rmatch_suffix[OF m] obtain u where "s = u @ m" by (auto simp: suffix_def)
    ultimately have "s = (u @ a) @ x @ b @ s'" by simp
    then show ?thesis by blast
  qed
next
  case (Grp n r)
  from Grp.prems(2) obtain ga where "(s', ga) \<in> set (rmatch r s g)" by auto
  from Grp.IH[OF _ this] Grp.prems(1) show ?case by simp
qed

lemma rmatch_needs_contains:
  "needs r x \<Longrightarrow> \<not> contains s x \<Longrightarrow> rmatch r s g = []"
proof (rule ccontr)
  assume n: "needs r x" and c: "\<not> contains s x" and ne: "rmatch r s g \<noteq> []"
  then obtain s' g' where "(s', g') \<in> set (rmatch r s g)"
    by (cases "rmatch r s g") auto
  from rmatch_needs[OF n this] obtain a b where "s = a @ x @ (b @ s')" by auto
  then have "contains s x" unfolding contains_iff by blast
  with c show False by simp
qed

lemma first_match_Nil: "rmatch r s (\<lambda>_. None) = [] \<Longrightarrow> first_match r adv s = None"
  by (simp add: first_match_def)

lemma contains_Cons: "contains cs x \<Longrightarrow> contains (c # cs) x"
  by simp

lemma sub_go_no_lit:
  "needs r x \<Longrightarrow> \<not> contains s x \<Longrightarrow> sub_go r t adv s = s"
proof (induction s arbitrary: adv)
  case Nil
  then have "first_match r adv [] = None"
    by (intro first_match_Nil rmatch_needs_contains)
  then show ?case by (simp add: sub_go.simps[of r t adv "[]"])
next
  case (Cons c cs)
  then have "first_match r adv (c # cs) = None"
    by (intro first_match_Nil rmatch_needs_contains)
  moreover from Cons.prems(2) have "\<not> contains cs x" by auto
  ultimately show ?case using Cons.IH[OF Cons.prems(1)]
    by (simp add: sub_go.simps[of r t adv "c # cs"])
qed

lemma re_sub_no_lit: "needs r x \<Longrightarrow> \<not> contains s x \<Longrightarrow> re_sub r t s = s"
  by (simp add: re_sub_def sub_go_no_lit)

lemma needs_step_config: "needs step_config_re '', WorkflowStepConfig''"
  by (simp add: step_config_re_def)

lemma fix_step_config_fixed:
  "\<not> contains c '', WorkflowStepConfig'' \<Longrightarrow> fix_step_config c = c"
  unfolding fix_step_config_def by (rule re_sub_no_lit[OF needs_step_config])

section \<open>Scanning a text for matches and occurrences\<close>

lemma sub_go_skip:
  "(\<And>i. i < length pre \<Longrightarrow> rmatch r (drop i pre @ rest) (\<lambda>_. None) = []) \<Longrightarrow>
   sub_go r t False (pre @ rest) = pre @ sub_go r t False rest"
proof (induction pre)
  case Nil
  show ?case by simp
next
  case (Cons c pre)
  from Cons.prems[of 0] have "first_match r False (c # pre @ rest) = None"
    by (simp add: first_match_Nil)
  then have "sub_go r t False ((c # pre) @ rest) = c # sub_go r t False (pre @ rest)"
    by (simp add: sub_go.simps[of r t False "c # pre @ rest"])
  moreover have "sub_go r t False (pre @ rest) = pre @ sub_go r t False rest"
  proof (rule Cons.IH)
    fix i assume "i < length pre"
    then show "rmatch r (drop i pre @ rest) (\<lambda>_. None) = []"
      using Cons.prems[of "Suc i"] by simp
  qed
  ultimately show ?case by simp
qed

lemma sub_go_match:
  "first_match r False s = Some (s', g) \<Longrightarrow> length s' < length s \<Longrightarrow>
   sub_go r t False s = expand t g @ sub_go r t False s'"
  by (simp add: sub_go.simps[of r t False s])

lemma prefix_no_straddle:
  "prefix l (u @ v) \<Longrightarrow> u \<noteq> [] \<Longrightarrow> last u \<notin> set l \<Longrightarrow> prefix l u"
proof -
  assume p: "prefix l (u @ v)" and u: "u \<noteq> []" and n: "last u \<notin> set l"
  from p consider "prefix l u" | us where "l = u @ us" by (auto simp: prefix_append)
  then show ?thesis
  proof cases
    case 1
    then show ?thesis .
  next
    case 2
    with u have "last u \<in> set l" by simp
    with n show ?thesis by simp
  qed
qed

lemma contains_prefix: "prefix w s \<Longrightarrow> contains s w"
  by (cases s) auto

lemma contains_append_left: "contains b w \<Longrightarrow> contains (a @ b) w"
  by (induction a) auto


lemma contains_drop: "contains (drop i s) w \<Longrightarrow> contains s w"
  using contains_append_left[of "drop i s" w "take i s"] by simp

lemma contains_separator:
  "contains (a @ x # b) w \<Longrightarrow> x \<notin> set w \<Longrightarrow> contains a w \<or> contains b w"
proof (induction a)
  case Nil
  then show ?case by (cases w) auto
next
  case (Cons c a)
  from Cons.prems(1) consider "prefix w ((c # a) @ x # b)" | "contains (a @ x # b) w" by auto
  then show ?case
  proof cases
    case 1
    then consider "prefix w (c # a)" | us where "w = (c # a) @ us" "prefix us (x # b)"
      using prefix_append[of w "c # a" "x # b"] by auto
    then show ?thesis
    proof cases
      case 1
      then show ?thesis by (simp add: contains_prefix del: contains.simps)
    next
      case 2
      show ?thesis
      proof (cases us)
        case Nil
        with 2 have "prefix w (c # a)" by simp
        then show ?thesis by (simp add: contains_prefix del: contains.simps)
      next
        case (Cons y ys)
        with 2 have "x \<in> set w" by auto
        with Cons.prems(2) show ?thesis by simp
      qed
    qed
  next
    case 2
    from Cons.IH[OF 2 Cons.prems(2)] show ?thesis by auto
  qed
qed

lemma not_contains_separator:
  "\<not> contains a w \<Longrightarrow> \<not> contains b w \<Longrightarrow> x \<notin> set w \<Longrightarrow> \<not> contains (a @ x # b) w"
  using contains_separator by blast






lemma rmatch_Seq_Lit [simp]:
  "rmatch (Seq (Lit l) r) s g = (if prefix l s then rmatch r (drop (length l) s) g else [])"
  by simp

lemma rmatch_Seq_One_Cons [simp]:
  "rmatch (Seq (One p) r) (c # cs) g = (if p c then rmatch r cs g else [])"
  by simp

lemma rmatch_Seq_Rep:
  "rmatch (Seq (Rep lo p) r) s g =
     concat (map (\<lambda>k. rmatch r (drop k s) g) (rev [lo ..< Suc (length (takeWhile p s))]))"
  by (simp add: comp_def)



section \<open>The WorkflowCoordinator import fixer\<close>

lemma no_occurrence_before:
  assumes "pre = [] \<or> last pre \<notin> set w" "\<not> contains pre w" "i < length pre"
  shows "\<not> prefix w (drop i pre @ rest)"
proof
  assume p: "prefix w (drop i pre @ rest)"
  from assms(3) have ne: "drop i pre \<noteq> []" by simp
  then have "last (drop i pre) = last pre" using assms(3) by simp
  with assms(1,3) have "last (drop i pre) \<notin> set w" by auto
  from prefix_no_straddle[OF p ne this] have "contains (drop i pre) w" by (rule contains_prefix)
  then have "contains pre w" by (rule contains_drop)
  with assms(2) show False by simp
qed




section \<open>Matches that stay inside a prefix, and the greedy star\<close>

lemma prefix_append_cases:
  "prefix l (y @ z) \<Longrightarrow> prefix l y \<or> (length y < length l \<and> prefix (drop (length y) l) z)"
  by (auto simp: prefix_append)

lemma stays_sound:
  "stays r z \<Longrightarrow> (s', g') \<in> set (rmatch r (y @ z) g) \<Longrightarrow> \<exists>y'. s' = y' @ z \<and> length y' \<le> length y"
proof (induction r arbitrary: y g s' g')
  case (Lit l)
  from Lit.prems(2) have p: "prefix l (y @ z)" and s': "s' = drop (length l) (y @ z)"
    by (auto split: if_splits)
  from prefix_append_cases[OF p] Lit.prems(1) have "prefix l y"
    by (auto simp: list_all_iff)
  then have "length l \<le> length y" by (rule prefix_length_le)
  with s' have "s' = drop (length l) y @ z" by simp
  then show ?case by (intro exI[of _ "drop (length l) y"]) simp
next
  case (One p)
  from One.prems(1) obtain c cs where z: "z = c # cs" "\<not> p c" by (cases z) auto
  show ?case
  proof (cases y)
    case Nil
    with One.prems(2) z show ?thesis by simp
  next
    case (Cons d ds)
    with One.prems(2) have "s' = ds @ z" by (auto split: if_splits)
    with Cons show ?thesis by simp
  qed
next
  case (Rep lo p)
  from Rep.prems(1) obtain c cs where z: "z = c # cs" "\<not> p c" by (cases z) auto
  have "takeWhile p (y @ z) = takeWhile p y"
  proof (cases "\<forall>x\<in>set y. p x")
    case True
    then have a: "takeWhile p y = y" by (simp add: takeWhile_eq_all_conv)
    have "takeWhile p (y @ z) = y @ takeWhile p z" using True by (simp add: takeWhile_append2)
    also have "takeWhile p z = []" using z by simp
    finally have "takeWhile p (y @ z) = y" by simp
    then show ?thesis by (simp only: a)
  next
    case False
    then show ?thesis by (auto simp: takeWhile_append1)
  qed
  then have n: "length (takeWhile p (y @ z)) \<le> length y"
    by (simp add: length_takeWhile_le)
  from Rep.prems(2) obtain k where "k \<le> length (takeWhile p (y @ z))" "s' = drop k (y @ z)"
    by (auto simp del: drop_append upt_Suc simp: less_Suc_eq_le)
  with n have "s' = drop k y @ z" by simp
  then show ?case by (intro exI[of _ "drop k y"]) simp
next
  case (Seq a b)
  from Seq.prems(2) obtain m gm where
    m: "(m, gm) \<in> set (rmatch a (y @ z) g)" and r: "(s', g') \<in> set (rmatch b m gm)"
    by auto
  from Seq.prems(1) have sa: "stays a z" and sb: "stays b z" by auto
  from Seq.IH(1)[OF sa m] obtain y1 where y1: "m = y1 @ z" "length y1 \<le> length y" by blast
  from Seq.IH(2)[OF sb r[unfolded y1(1)]] obtain y' where "s' = y' @ z" "length y' \<le> length y1"
    by blast
  with y1 show ?case by (intro exI[of _ y']) simp
next
  case (Grp n a)
  from Grp.prems(2) obtain ga where "(s', ga) \<in> set (rmatch a (y @ z) g)" by auto
  from Grp.IH[OF _ this] Grp.prems(1) show ?case by simp
qed

lemma concat_map_all_Nil: "(\<And>x. x \<in> set xs \<Longrightarrow> f x = []) \<Longrightarrow> concat (map f xs) = []"
  by (induction xs) auto

lemma takeWhile_nth_holds: "k < length (takeWhile p s) \<Longrightarrow> p (s ! k)"
  by (metis nth_mem set_takeWhileD takeWhile_nth)

lemma rep_then_guard:
  assumes "\<And>k. k < length (takeWhile p s) \<Longrightarrow> f (drop k s) = []"
  shows "concat (map (\<lambda>k. f (drop k s)) (rev [lo ..< Suc (length (takeWhile p s))])) =
         (if lo \<le> length (takeWhile p s) then f (dropWhile p s) else [])"
proof (cases "lo \<le> length (takeWhile p s)")
  case True
  let ?n = "length (takeWhile p s)"
  have "rev [lo ..< Suc ?n] = ?n # rev [lo ..< ?n]" using True by simp
  moreover have "concat (map (\<lambda>k. f (drop k s)) (rev [lo ..< ?n])) = []"
    by (rule concat_map_all_Nil) (use assms in auto)
  moreover have "drop ?n s = dropWhile p s" by (simp add: dropWhile_eq_drop)
  ultimately show ?thesis using True by simp
next
  case False
  then show ?thesis by simp
qed

lemma rep_then_lit:
  assumes "\<not> p c"
  shows "rmatch (Seq (Rep lo p) (Seq (Lit (c # l)) r)) s g =
         (if lo \<le> length (takeWhile p s) then rmatch (Seq (Lit (c # l)) r) (dropWhile p s) g else [])"
  unfolding rmatch_Seq_Rep
proof (rule rep_then_guard)
  fix k assume k: "k < length (takeWhile p s)"
  then have "k < length s" using length_takeWhile_le[of p s] by simp
  then have "drop k s = s ! k # drop (Suc k) s" by (simp add: Cons_nth_drop_Suc)
  moreover have "p (s ! k)" using k by (rule takeWhile_nth_holds)
  ultimately show "rmatch (Seq (Lit (c # l)) r) (drop k s) g = []"
    using assms by auto
qed

lemma rep_then_lit_last:
  assumes "\<not> p c"
  shows "rmatch (Seq (Rep lo p) (Lit (c # l))) s g =
         (if lo \<le> length (takeWhile p s) then rmatch (Lit (c # l)) (dropWhile p s) g else [])"
  unfolding rmatch_Seq_Rep
proof (rule rep_then_guard)
  fix k assume k: "k < length (takeWhile p s)"
  then have "k < length s" using length_takeWhile_le[of p s] by simp
  then have "drop k s = s ! k # drop (Suc k) s" by (simp add: Cons_nth_drop_Suc)
  moreover have "p (s ! k)" using k by (rule takeWhile_nth_holds)
  ultimately show "rmatch (Lit (c # l)) (drop k s) g = []"
    using assms by auto
qed

lemma rep_then_one:
  assumes "\<And>c. p c \<Longrightarrow> \<not> q c"
  shows "rmatch (Seq (Rep lo p) (Seq (One q) r)) s g =
         (if lo \<le> length (takeWhile p s) then rmatch (Seq (One q) r) (dropWhile p s) g else [])"
  unfolding rmatch_Seq_Rep
proof (rule rep_then_guard)
  fix k assume k: "k < length (takeWhile p s)"
  then have "k < length s" using length_takeWhile_le[of p s] by simp
  then have "drop k s = s ! k # drop (Suc k) s" by (simp add: Cons_nth_drop_Suc)
  moreover have "p (s ! k)" using k by (rule takeWhile_nth_holds)
  ultimately show "rmatch (Seq (One q) r) (drop k s) g = []"
    using assms by auto
qed

lemma rev_upt_Suc: "rev [0 ..< Suc m] = map Suc (rev [0 ..< m]) @ [0]"
proof -
  have "[0 ..< Suc m] = 0 # map Suc [0 ..< m]"
    by (simp add: upt_conv_Cons map_Suc_upt del: upt_Suc)
  then show ?thesis by (simp add: rev_map del: upt_Suc)
qed

lemma star_peel:
  assumes "p c"
  shows "concat (map (\<lambda>k. f (drop k (c # cs))) (rev [0 ..< Suc (length (takeWhile p (c # cs)))])) =
         concat (map (\<lambda>k. f (drop k cs)) (rev [0 ..< Suc (length (takeWhile p cs))])) @ f (c # cs)"
proof -
  let ?n = "length (takeWhile p cs)"
  have "length (takeWhile p (c # cs)) = Suc ?n" using assms by simp
  then have "rev [0 ..< Suc (length (takeWhile p (c # cs)))] = map Suc (rev [0 ..< Suc ?n]) @ [0]"
    by (simp only: rev_upt_Suc)
  then show ?thesis by (simp add: comp_def del: upt_Suc)
qed

lemma star_stop:
  assumes "\<not> p c"
  shows "concat (map (\<lambda>k. f (drop k (c # cs))) (rev [0 ..< Suc (length (takeWhile p (c # cs)))])) =
         f (c # cs)"
  using assms by simp

section \<open>The pattern of fix-unused-imports, piece by piece\<close>

lemma star_then_Nil [simp]: "star_then f p [] = f []"
  by (simp add: star_then_def)

lemma star_then_Cons [simp]:
  "star_then f p (c # cs) = (if p c then star_then f p cs @ f (c # cs) else f (c # cs))"
  unfolding star_then_def using star_peel[of p c f cs] by simp

lemma star_then_append:
  "\<forall>c\<in>set q. p c \<Longrightarrow> \<exists>ys. star_then f p (q @ v) = star_then f p v @ ys"
  by (induction q) auto

lemma rmatch_Grp_Rep_then:
  "concat (map (\<lambda>(s1, g1). rmatch r s1 g1)
     (map (\<lambda>(s', g'). (s', g'(n \<mapsto> take (length s - length s') s)))
        (map (\<lambda>k. (drop k u, g)) ks))) =
   concat (map (\<lambda>k. rmatch r (drop k u) (g(n \<mapsto> take (length s - length (drop k u)) s))) ks)"
  by (induction ks) (simp_all del: length_drop)

lemma header_match:
  "rmatch (Seq (Lit ''import'') (Seq (Rep 1 is_space) (Lit ''{''))) s g =
     (if prefix ''import'' s \<and> takeWhile is_space (drop 6 s) \<noteq> [] \<and>
         prefix ''{'' (dropWhile is_space (drop 6 s))
      then [(tl (dropWhile is_space (drop 6 s)), g)] else [])"
proof -
  have ns: "\<not> is_space (CHR ''{'')" by (simp add: is_space_def)
  have one: "Suc 0 \<le> length xs \<longleftrightarrow> xs \<noteq> []" for xs :: string by (cases xs) auto
  show ?thesis
    by (simp add: rep_then_lit_last[where p = is_space and c = "CHR ''{''", OF ns] one drop_Suc del: rmatch.simps(4))
       (auto simp: prefix_def one)
qed

lemma after_header_eq:
  "after_header s =
     (if prefix ''import'' s \<and> takeWhile is_space (drop 6 s) \<noteq> [] \<and>
         prefix ''{'' (dropWhile is_space (drop 6 s))
      then Some (tl (dropWhile is_space (drop 6 s))) else None)"
  unfolding after_header_def header_match by simp

lemma step_config_re_char:
  "rmatch step_config_re s g0 =
     (case after_header s of
        None \<Rightarrow> []
      | Some u \<Rightarrow>
          star_then (\<lambda>v. rmatch step_config_rest v (g0(1 \<mapsto> take (length s - length v) s)))
            not_brace u)"
proof -
  have ns: "\<not> is_space (CHR ''{'')" by (simp add: is_space_def)
  have one: "Suc 0 \<le> length xs \<longleftrightarrow> xs \<noteq> []" for xs :: string by (cases xs) auto
  let ?H = "Seq (Lit ''import'') (Seq (Rep 1 is_space) (Seq (Lit ''{'') (Rep 0 not_brace)))"
  have H: "rmatch ?H s g =
     (if prefix ''import'' s \<and> takeWhile is_space (drop 6 s) \<noteq> [] \<and>
         prefix ''{'' (dropWhile is_space (drop 6 s))
      then map (\<lambda>k. (drop k (tl (dropWhile is_space (drop 6 s))), g))
             (rev [0 ..< Suc (length (takeWhile not_brace (tl (dropWhile is_space (drop 6 s)))))])
      else [])" for g
    by (simp add: rep_then_lit[where p = is_space and c = "CHR ''{''", OF ns] one drop_Suc del: rmatch.simps(4) upt_Suc)
       (auto simp: prefix_def one)
  have R: "step_config_re = Seq (Grp 1 ?H) step_config_rest"
    by (simp add: step_config_re_def step_config_rest_def)
  have step: "rmatch (Seq (Grp 1 ?H) step_config_rest) s g0 =
      concat (map (\<lambda>(s1, g1). rmatch step_config_rest s1 g1)
        (map (\<lambda>(s', g'). (s', g'(1 \<mapsto> take (length s - length s') s))) (rmatch ?H s g0)))"
    by (subst rmatch.simps(4), subst rmatch.simps(5), rule refl)
  show ?thesis
  proof (cases "prefix ''import'' s \<and> takeWhile is_space (drop 6 s) \<noteq> [] \<and>
         prefix ''{'' (dropWhile is_space (drop 6 s))")
    case True
    then have ah: "after_header s = Some (tl (dropWhile is_space (drop 6 s)))"
      by (simp add: after_header_eq)
    show ?thesis
      unfolding R ah step H
      by (simp only: True if_True simp_thms rmatch_Grp_Rep_then option.case star_then_def)
  next
    case False
    then have ah: "after_header s = None" by (simp add: after_header_eq)
    show ?thesis unfolding R ah step H
      by (simp only: False if_False list.map concat.simps option.case)
  qed
qed

lemma space_not_quote: "is_space c \<Longrightarrow> \<not> is_quote c"
  by (auto simp: is_space_def is_quote_def squote_def dquote_def Let_def)

lemma space_then_quote:
  "rmatch (Seq (Rep lo is_space) (Seq (One is_quote) r)) s g =
     (if lo \<le> length (takeWhile is_space s)
      then rmatch (Seq (One is_quote) r) (dropWhile is_space s) g else [])"
  by (rule rep_then_one) (rule space_not_quote)

lemmas rest_simps =
  rep_then_lit[where p = not_brace and c = "CHR ''}''"]
  rep_then_lit[where p = is_space and c = "CHR ''f''"]
  space_then_quote

lemma take_consumed: "take (length (a @ b) - length b) (a @ b) = a"
  by simp

lemma rest_at_name:
  "rmatch step_config_rest
     (('', WorkflowStepConfig, B } from '' @ [dquote] @ ''../engine/WorkflowStep.js'' @ [dquote]) @ post) g =
   [(post, g(2 \<mapsto> '', B } from '' @ [dquote] @ ''../engine/WorkflowStep.js'' @ [dquote]))]"
proof -
  let ?t = "'', B } from '' @ [dquote] @ ''../engine/WorkflowStep.js'' @ [dquote]"
  let ?T = "seqs [Rep 0 not_brace, Lit ''}'', Rep 1 is_space, Lit ''from'', Rep 1 is_space,
                     One is_quote, Lit ''../engine/WorkflowStep.js'', One is_quote]"
  have T: "rmatch ?T (?t @ post) g = [(post, g)]"
    by (simp add: rest_simps not_brace_def is_space_def is_quote_def dquote_def
          del: rmatch.simps(4))
  have "rmatch (Grp 2 ?T) (?t @ post) g = [(post, g(2 \<mapsto> take (length (?t @ post) - length post) (?t @ post)))]"
    unfolding rmatch.simps(5) T by simp
  then have "rmatch (Grp 2 ?T) (?t @ post) g = [(post, g(2 \<mapsto> ?t))]"
    unfolding take_consumed .
  then show ?thesis
    by (simp add: step_config_rest_def del: rmatch.simps(4,5) seqs.simps)
qed

lemma stays_Lit_Nil [simp]: "stays (Lit []) z"
  by simp

lemma stays_Lit_Cons [simp]:
  "stays (Lit (c # l)) z = (\<not> prefix (c # l) z \<and> stays (Lit l) z)"
proof -
  have e: "[0 ..< length (c # l)] = 0 # map Suc [0 ..< length l]"
    by (simp add: upt_conv_Cons map_Suc_upt del: upt_Suc)
  show ?thesis unfolding stays.simps e by (simp add: list.pred_map comp_def)
qed

declare stays.simps(1) [simp del]

lemma in_rmatch_Seq:
  "(s', g') \<in> set (rmatch (Seq a b) s g) \<longleftrightarrow>
   (\<exists>m gm. (m, gm) \<in> set (rmatch a s g) \<and> (s', g') \<in> set (rmatch b m gm))"
  by auto

lemma in_rmatch_Grp:
  "(s', g') \<in> set (rmatch (Grp n a) s g) \<Longrightarrow> \<exists>ga. (s', ga) \<in> set (rmatch a s g)"
  by auto

lemma suffix_same_tail: "suffix (y' @ z) (y @ z) \<Longrightarrow> suffix y' y"
  by (auto simp: suffix_def)

lemma star_at_name:
  assumes "\<And>v. \<not> prefix '', WorkflowStepConfig'' v \<Longrightarrow> f v = []"
  shows "star_then f not_brace
           (('', WorkflowStepConfig, B } from '' @ [dquote] @ ''../engine/WorkflowStep.js'' @ [dquote]) @ post) =
         f (('', WorkflowStepConfig, B } from '' @ [dquote] @ ''../engine/WorkflowStep.js'' @ [dquote]) @ post)"
  by (simp add: not_brace_def assms)

lemma rest_needs_name: "\<not> prefix '', WorkflowStepConfig'' v \<Longrightarrow> rmatch step_config_rest v g = []"
  by (simp add: step_config_rest_def del: rmatch.simps(4,5) seqs.simps)

lemma import_line_split:
  "import_line = ''import { A'' @
     ('', WorkflowStepConfig, B } from '' @ [dquote] @ ''../engine/WorkflowStep.js'' @ [dquote])"
  by (simp add: import_line_def)

lemma fixed_import_line_split:
  "fixed_import_line = ''import { A'' @
     ('', B } from '' @ [dquote] @ ''../engine/WorkflowStep.js'' @ [dquote])"
  by (simp add: fixed_import_line_def)

lemma import_head_Cons:
  "rmatch (Seq (Lit ''import'') r) (c # x) g =
     (if c = CHR ''i'' then rmatch (Seq (Lit ''mport'') r) x g else [])"
  by simp

lemma header_inside:
  assumes "after_header (p @ import_line @ post) = Some u"
  shows "\<exists>q. u = q @ ('', WorkflowStepConfig, B } from '' @ [dquote] @ ''../engine/WorkflowStep.js'' @
                 [dquote]) @ post \<and>
             (CHR ''}'' \<in> set q \<longrightarrow> CHR ''}'' \<in> set p)"
proof (cases p)
  case Nil
  have "after_header (import_line @ post) =
        Some ('' A'' @ ('', WorkflowStepConfig, B } from '' @ [dquote] @ ''../engine/WorkflowStep.js'' @
                 [dquote]) @ post)"
    by (simp add: after_header_eq import_line_def is_space_def)
  with assms Nil show ?thesis by (intro exI[of _ "'' A''"]) simp
next
  case (Cons c p')
  let ?z = "import_line @ post"
  let ?Hd = "Seq (Lit ''import'') (Seq (Rep 1 is_space) (Lit ''{''))"
  let ?Hd2 = "Seq (Lit ''mport'') (Seq (Rep 1 is_space) (Lit ''{''))"
  from assms obtain g ys where "rmatch ?Hd (p @ ?z) (\<lambda>_. None) = (u, g) # ys"
    by (auto simp: after_header_def simp del: rmatch.simps split: list.splits prod.splits)
  then have "(u, g) \<in> set (rmatch ?Hd (p @ ?z) (\<lambda>_. None))" by simp
  then have mem: "(u, g) \<in> set (rmatch ?Hd2 (p' @ ?z) (\<lambda>_. None))"
    unfolding Cons append_Cons import_head_Cons by (auto split: if_splits)
  have st: "stays ?Hd2 ?z"
    by (simp add: import_line_def is_space_def)
  from stays_sound[OF st mem] obtain y' where y': "u = y' @ ?z" by blast
  from rmatch_suffix[OF mem] y' have "suffix y' p'" by (auto intro: suffix_same_tail)
  then have sub: "set y' \<subseteq> set p" using Cons by (auto simp: suffix_def)
  have "u = (y' @ ''import { A'') @ ('', WorkflowStepConfig, B } from '' @ [dquote] @
               ''../engine/WorkflowStep.js'' @ [dquote]) @ post"
    using y' by (simp add: import_line_def)
  moreover have "CHR ''}'' \<in> set (y' @ ''import { A'') \<longrightarrow> CHR ''}'' \<in> set p"
    using sub by auto
  ultimately show ?thesis by blast
qed

lemma line_match:
  assumes nb: "CHR ''}'' \<notin> set p" and ah: "after_header (p @ import_line @ post) = Some u"
  shows "\<exists>g ys. rmatch step_config_re (p @ import_line @ post) g0 = (post, g) # ys \<and>
                expand [TGrp 1, TGrp 2] g = p @ fixed_import_line"
proof -
  let ?M = "'', WorkflowStepConfig, B } from '' @ [dquote] @ ''../engine/WorkflowStep.js'' @ [dquote]"
  let ?t2 = "'', B } from '' @ [dquote] @ ''../engine/WorkflowStep.js'' @ [dquote]"
  let ?s = "p @ import_line @ post"
  let ?f = "\<lambda>v. rmatch step_config_rest v (g0(1 \<mapsto> take (length ?s - length v) ?s))"
  from header_inside[OF ah] nb obtain q where u: "u = q @ ?M @ post" and q: "CHR ''}'' \<notin> set q"
    by blast
  have 1: "rmatch step_config_re ?s g0 = star_then ?f not_brace u"
    by (simp add: step_config_re_char ah)
  from q have "\<forall>c\<in>set q. not_brace c" by (auto simp: not_brace_def)
  from star_then_append[OF this, of ?f "?M @ post"] obtain ys where
    2: "star_then ?f not_brace (q @ ?M @ post) = star_then ?f not_brace (?M @ post) @ ys"
    by blast
  have 3: "star_then ?f not_brace (?M @ post) = ?f (?M @ post)"
    by (rule star_at_name) (rule rest_needs_name)
  have s: "?s = (p @ ''import { A'') @ (?M @ post)"
    by (simp add: import_line_def)
  have 4: "take (length ?s - length (?M @ post)) ?s = p @ ''import { A''"
    unfolding s by (rule take_consumed)
  let ?g = "(g0(1 \<mapsto> p @ ''import { A''))(2 \<mapsto> ?t2)"
  have 5: "?f (?M @ post) = [(post, ?g)]"
    unfolding 4 by (rule rest_at_name)
  have "rmatch step_config_re ?s g0 = (post, ?g) # ys"
    unfolding 1 u 2 3 5 by simp
  moreover have "expand [TGrp 1, TGrp 2] ?g = p @ fixed_import_line"
    by (simp add: fixed_import_line_def)
  ultimately show ?thesis by blast
qed

lemma before_brace:
  assumes br: "CHR ''}'' \<in> set p"
    and mem: "(s', g) \<in> set (rmatch step_config_re (p @ import_line @ post) g0)"
  shows "\<exists>y'. s' = y' @ import_line @ post"
proof -
  let ?z = "import_line @ post"
  let ?H = "Seq (Lit ''import'') (Seq (Rep 1 is_space) (Seq (Lit ''{'') (Rep 0 not_brace)))"
  let ?T2 = "Seq (Rep 1 is_space) (Seq (Lit ''from'') (Seq (Rep 1 is_space)
               (Seq (One is_quote) (Seq (Lit ''../engine/WorkflowStep.js'') (One is_quote)))))"
  let ?T = "Seq (Rep 0 not_brace) (Seq (Lit ''}'') ?T2)"
  from br obtain x y where p: "p = x @ CHR ''}'' # y" by (auto simp: in_set_conv_decomp)
  let ?z' = "CHR ''}'' # y @ ?z"
  have R: "step_config_re = Seq (Grp 1 ?H) (Seq (Lit '', WorkflowStepConfig'') (Grp 2 ?T))"
    by (simp add: step_config_re_def)
  have s: "p @ ?z = x @ ?z'" by (simp add: p)
  from mem[unfolded R s] have
    "\<exists>m gm. (m, gm) \<in> set (rmatch (Grp 1 ?H) (x @ ?z') g0) \<and>
        (s', g) \<in> set (rmatch (Seq (Lit '', WorkflowStepConfig'') (Grp 2 ?T)) m gm)"
    by (rule in_rmatch_Seq[THEN iffD1])
  then obtain m1 g1 where
    m1: "(m1, g1) \<in> set (rmatch (Grp 1 ?H) (x @ ?z') g0)" and
    r1: "(s', g) \<in> set (rmatch (Seq (Lit '', WorkflowStepConfig'') (Grp 2 ?T)) m1 g1)"
    by blast
  from r1 have
    "\<exists>m gm. (m, gm) \<in> set (rmatch (Lit '', WorkflowStepConfig'') m1 g1) \<and>
        (s', g) \<in> set (rmatch (Grp 2 ?T) m gm)"
    by (rule in_rmatch_Seq[THEN iffD1])
  then obtain m2 g2 where
    m2: "(m2, g2) \<in> set (rmatch (Lit '', WorkflowStepConfig'') m1 g1)" and
    r2: "(s', g) \<in> set (rmatch (Grp 2 ?T) m2 g2)"
    by blast
  have "stays (Grp 1 ?H) ?z'" by (simp add: is_space_def not_brace_def)
  from stays_sound[OF this m1] obtain x1 where x1: "m1 = x1 @ ?z'" by blast
  have "stays (Lit '', WorkflowStepConfig'') ?z'" by simp
  from stays_sound[OF this m2[unfolded x1]] obtain x2 where x2: "m2 = x2 @ ?z'" by blast
  from in_rmatch_Grp[OF r2] obtain ga where "(s', ga) \<in> set (rmatch ?T m2 g2)" by blast
  then have
    "\<exists>m gm. (m, gm) \<in> set (rmatch (Rep 0 not_brace) m2 g2) \<and>
        (s', ga) \<in> set (rmatch (Seq (Lit ''}'') ?T2) m gm)"
    by (rule in_rmatch_Seq[THEN iffD1])
  then obtain m3 g3 where
    m3: "(m3, g3) \<in> set (rmatch (Rep 0 not_brace) m2 g2)" and
    r3: "(s', ga) \<in> set (rmatch (Seq (Lit ''}'') ?T2) m3 g3)"
    by blast
  from r3 have
    "\<exists>m gm. (m, gm) \<in> set (rmatch (Lit ''}'') m3 g3) \<and>
        (s', ga) \<in> set (rmatch ?T2 m gm)"
    by (rule in_rmatch_Seq[THEN iffD1])
  then obtain m4 g4 where
    m4: "(m4, g4) \<in> set (rmatch (Lit ''}'') m3 g3)" and
    r4: "(s', ga) \<in> set (rmatch ?T2 m4 g4)"
    by blast
  have "stays (Rep 0 not_brace) ?z'" by (simp add: not_brace_def)
  from stays_sound[OF this m3[unfolded x2]] obtain x3 where x3: "m3 = x3 @ ?z'" by blast
  from m4 have "m4 = drop 1 m3" by (auto split: if_splits)
  then have "\<exists>y4. m4 = y4 @ ?z" unfolding x3
    by (cases x3) (auto intro: exI[of _ y] exI[of _ "tl x3 @ CHR ''}'' # y"])
  then obtain y4 where y4: "m4 = y4 @ ?z" by blast
  have "stays ?T2 ?z"
    by (simp add: import_line_def is_space_def is_quote_def squote_def dquote_def)
  from stays_sound[OF this r4[unfolded y4]] show ?thesis by blast
qed

lemma first_match_hd:
  "rmatch r s (\<lambda>_. None) = (s', g) # ys \<Longrightarrow> length s' < length s \<Longrightarrow>
   first_match r adv s = Some (s', g)"
  by (simp add: first_match_def)

lemma sub_go_line:
  "contains (sub_go step_config_re [TGrp 1, TGrp 2] adv (p @ import_line @ post)) fixed_import_line"
proof (induction "length p" arbitrary: p adv rule: less_induct)
  case less
  let ?R = step_config_re
  let ?t = "[TGrp 1, TGrp 2]"
  let ?s = "p @ import_line @ post"
  have shorter: "length s' < length ?s" if "(s', g) \<in> set (rmatch ?R ?s g0)" for s' g g0
  proof -
    from rmatch_needs[OF needs_step_config that] obtain a b where
      "?s = a @ '', WorkflowStepConfig'' @ b @ s'" by blast
    then have "length (p @ import_line @ post) = length (a @ '', WorkflowStepConfig'' @ b @ s')"
      by (rule arg_cong)
    then show ?thesis by simp
  qed
  show ?case
  proof (cases "first_match ?R adv ?s")
    case None
    have "p \<noteq> []"
    proof
      assume e: "p = []"
      have "after_header (import_line @ post) \<noteq> None"
        by (simp add: after_header_eq import_line_def is_space_def)
      then obtain u where u: "after_header (p @ import_line @ post) = Some u" using e by auto
      from line_match[OF _ u, of "\<lambda>_. None"] e obtain g ys where
        m: "rmatch ?R ?s (\<lambda>_. None) = (post, g) # ys" by auto
      then have "(post, g) \<in> set (rmatch ?R ?s (\<lambda>_. None))" by simp
      from first_match_hd[OF m shorter[OF this]] None show False by simp
    qed
    then obtain c p' where p: "p = c # p'" by (cases p) auto
    have "sub_go ?R ?t adv ?s = c # sub_go ?R ?t False (p' @ import_line @ post)"
      by (subst sub_go.simps) (use None p in simp)
    moreover have "contains (sub_go ?R ?t False (p' @ import_line @ post)) fixed_import_line"
      using less[of p' False] p by simp
    ultimately show ?thesis by (simp add: contains_Cons del: contains.simps)
  next
    case (Some m)
    obtain s' g where m: "m = (s', g)" by (cases m)
    from Some m have mem: "(s', g) \<in> set (rmatch ?R ?s (\<lambda>_. None))"
      by (simp add: first_match_mem)
    note len = shorter[OF mem]
    have go: "sub_go ?R ?t adv ?s = expand ?t g @ sub_go ?R ?t False s'"
      by (subst sub_go.simps) (use Some m len in simp)
    show ?thesis
    proof (cases "CHR ''}'' \<in> set p")
      case True
      from before_brace[OF True mem] obtain y' where y': "s' = y' @ import_line @ post" by blast
      with len have "length y' < length p" by simp
      from less[OF this, of False] have "contains (sub_go ?R ?t False s') fixed_import_line"
        by (simp add: y')
      then show ?thesis unfolding go by (rule contains_append_left)
    next
      case False
      have "after_header ?s \<noteq> None"
      proof
        assume "after_header ?s = None"
        then have "rmatch ?R ?s (\<lambda>_. None) = []" by (simp add: step_config_re_char)
        with mem show False by simp
      qed
      then obtain u where u: "after_header ?s = Some u" by auto
      from line_match[OF False u, of "\<lambda>_. None"] obtain g1 ys where
        r: "rmatch ?R ?s (\<lambda>_. None) = (post, g1) # ys" and
        e: "expand ?t g1 = p @ fixed_import_line" by blast
      from r have "(post, g1) \<in> set (rmatch ?R ?s (\<lambda>_. None))" by simp
      from first_match_hd[OF r shorter[OF this], of adv] Some m have "g = g1" by simp
      with go e have "sub_go ?R ?t adv ?s = p @ fixed_import_line @ sub_go ?R ?t False s'"
        by simp
      then show ?thesis unfolding contains_iff by blast
    qed
  qed
qed

section \<open>The import line of the step configuration\<close>

lemma fix_step_config_line:
  "contains (fix_step_config (pre @ import_line @ post)) fixed_import_line"
  unfolding fix_step_config_def re_sub_def by (rule sub_go_line)

section \<open>Removing the first name of an import list\<close>

lemma no_match_before:
  assumes sa: "stays a z" and sb: "stays b z" and sc: "stays c z"
    and nd: "needs c w" and nc: "\<not> contains y w"
  shows "rmatch (Seq a (Seq b (Seq c d))) (y @ z) g = []"
proof (rule ccontr)
  let ?R = "Seq a (Seq b (Seq c d))"
  assume ne: "rmatch ?R (y @ z) g \<noteq> []"
  define x where "x = hd (rmatch ?R (y @ z) g)"
  from ne have x: "x \<in> set (rmatch ?R (y @ z) g)" unfolding x_def by (rule hd_in_set)
  obtain s' g' where sg: "x = (s', g')" by (cases x)
  from x have "(s', g') \<in> set (rmatch ?R (y @ z) g)" unfolding sg .
  then have "\<exists>m gm. (m, gm) \<in> set (rmatch a (y @ z) g) \<and>
      (s', g') \<in> set (rmatch (Seq b (Seq c d)) m gm)"
    by (rule in_rmatch_Seq[THEN iffD1])
  then obtain m1 g1 where m1: "(m1, g1) \<in> set (rmatch a (y @ z) g)"
    and r1: "(s', g') \<in> set (rmatch (Seq b (Seq c d)) m1 g1)" by blast
  from r1 have "\<exists>m gm. (m, gm) \<in> set (rmatch b m1 g1) \<and>
      (s', g') \<in> set (rmatch (Seq c d) m gm)"
    by (rule in_rmatch_Seq[THEN iffD1])
  then obtain m2 g2 where m2: "(m2, g2) \<in> set (rmatch b m1 g1)"
    and r2: "(s', g') \<in> set (rmatch (Seq c d) m2 g2)" by blast
  from r2 have "\<exists>m gm. (m, gm) \<in> set (rmatch c m2 g2) \<and> (s', g') \<in> set (rmatch d m gm)"
    by (rule in_rmatch_Seq[THEN iffD1])
  then obtain m3 g3 where m3: "(m3, g3) \<in> set (rmatch c m2 g2)" by blast
  from stays_sound[OF sa m1] obtain y1 where y1: "m1 = y1 @ z" by blast
  from stays_sound[OF sb m2[unfolded y1]] obtain y2 where y2: "m2 = y2 @ z" by blast
  from stays_sound[OF sc m3[unfolded y2]] obtain y3 where y3: "m3 = y3 @ z" by blast
  from rmatch_needs[OF nd m3] obtain a' b' where "m2 = a' @ w @ b' @ m3" by blast
  with y2 y3 have e: "y2 = a' @ w @ b' @ y3" by simp
  from rmatch_suffix[OF m1] rmatch_suffix[OF m2] have "suffix m2 (y @ z)"
    by (rule suffix_order.trans[rotated])
  then have "suffix y2 y" unfolding y2 by (rule suffix_same_tail)
  then obtain q where "y = q @ y2" by (auto simp: suffix_def)
  with e have "y = (q @ a') @ w @ (b' @ y3)" by simp
  then have "contains y w" unfolding contains_iff by blast
  with nc show False by simp
qed

lemma sub_go_Cons_skip:
  "rmatch r (c # cs) (\<lambda>_. None) = [] \<Longrightarrow> sub_go r t False (c # cs) = c # sub_go r t False cs"
  by (subst sub_go.simps) (simp add: first_match_Nil)

lemma not_contains_drop: "\<not> contains s w \<Longrightarrow> \<not> contains (drop i s) w"
  using contains_drop by blast

lemma not_space_chars [simp]:
  "\<not> is_space CHR ''f''" "\<not> is_space CHR ''{''" "\<not> is_space CHR ''}''" "\<not> is_space CHR '',''"
  "\<not> is_space CHR ''i''"
  by (simp_all add: is_space_def)

lemma space_char [simp]: "is_space CHR '' ''"
  by (simp add: is_space_def)

lemma single_noop:
  assumes np: "\<not> contains pre ''foo''" and nr: "\<not> contains rest ''foo''"
  shows "re_sub (import_single_re ''foo'') [TLit ''{}''] (pre @ ''import { foo,'' @ rest) =
         pre @ ''import { foo,'' @ rest"
proof -
  let ?r = "import_single_re ''foo''"
  let ?t = "[TLit ''{}'']"
  let ?z = "''import { foo,'' @ rest"
  have nd: "needs ?r ''foo''" by (simp add: import_single_re_def)
  have skip: "rmatch ?r (drop i pre @ ?z) (\<lambda>_. None) = []" for i
    unfolding import_single_re_def seqs.simps
    by (rule no_match_before[where w = "''foo''"]) (simp_all add: not_contains_drop[OF np])
  have "sub_go ?r ?t False (pre @ ?z) = pre @ sub_go ?r ?t False ?z"
    by (rule sub_go_skip) (rule skip)
  also have "sub_go ?r ?t False ?z = ''import { foo,'' @ sub_go ?r ?t False rest"
    by (simp add: import_single_re_def sub_go_Cons_skip rep_then_lit rep_then_lit_last)
  also have "sub_go ?r ?t False rest = rest"
    by (rule sub_go_no_lit[OF nd nr])
  finally show ?thesis by (simp add: re_sub_def)
qed

lemma after_comma_noop:
  assumes np: "\<not> contains pre ''foo''" and nr: "\<not> contains rest ''foo''"
  shows "re_sub (import_after_comma_re ''foo'') [TLit '','']  (pre @ ''import { foo,'' @ rest) =
         pre @ ''import { foo,'' @ rest"
proof -
  let ?r = "import_after_comma_re ''foo''"
  let ?t = "[TLit '','']"
  let ?z = "''import { foo,'' @ rest"
  have nd: "needs ?r ''foo''" by (simp add: import_after_comma_re_def)
  have skip: "rmatch ?r (drop i pre @ ?z) (\<lambda>_. None) = []" for i
    unfolding import_after_comma_re_def seqs.simps
    by (rule no_match_before[where w = "''foo''"]) (simp_all add: not_contains_drop[OF np])
  have nt: "\<not> contains ([] @ CHR '','' # rest) ''foo''"
    by (rule not_contains_separator[OF _ nr]) simp_all
  have "sub_go ?r ?t False (pre @ ?z) = pre @ sub_go ?r ?t False ?z"
    by (rule sub_go_skip) (rule skip)
  also have "sub_go ?r ?t False ?z = ''import { foo'' @ sub_go ?r ?t False ('','' @ rest)"
    by (simp add: import_after_comma_re_def sub_go_Cons_skip)
  also have "sub_go ?r ?t False ('','' @ rest) = '','' @ rest"
    by (rule sub_go_no_lit[OF nd]) (use nt in simp)
  finally show ?thesis by (simp add: re_sub_def)
qed

lemma first_removed:
  assumes np: "\<not> contains pre ''foo''" and nr: "\<not> contains rest ''foo''"
  shows "re_sub (import_first_re ''foo'') [TLit ''{'']  (pre @ ''import { foo,'' @ rest) =
         pre @ ''import {'' @ rest"
proof -
  let ?r = "import_first_re ''foo''"
  let ?t = "[TLit ''{'']"
  let ?z = "''import { foo,'' @ rest"
  have nd: "needs ?r ''foo''" by (simp add: import_first_re_def)
  have skip: "rmatch ?r (drop i pre @ ?z) (\<lambda>_. None) = []" for i
    unfolding import_first_re_def seqs.simps
    by (rule no_match_before[where w = "''foo''"]) (simp_all add: not_contains_drop[OF np])
  have fm: "first_match ?r False (''{ foo,'' @ rest) = Some (rest, \<lambda>_. None)"
    by (simp add: import_first_re_def first_match_def rep_then_lit rep_then_lit_last)
  have "sub_go ?r ?t False (pre @ ?z) = pre @ sub_go ?r ?t False ?z"
    by (rule sub_go_skip) (rule skip)
  also have "sub_go ?r ?t False ?z = ''import '' @ sub_go ?r ?t False (''{ foo,'' @ rest)"
    by (simp add: import_first_re_def sub_go_Cons_skip)
  also have "sub_go ?r ?t False (''{ foo,'' @ rest) = expand ?t (\<lambda>_. None) @ sub_go ?r ?t False rest"
    by (rule sub_go_match[OF fm]) simp
  also have "sub_go ?r ?t False rest = rest"
    by (rule sub_go_no_lit[OF nd nr])
  finally show ?thesis by (simp add: re_sub_def)
qed

lemma empty_import_noop:
  assumes line: "pre = [] \<or> last pre = nl"
    and np: "\<not> contains pre ''import''" and nr: "\<not> contains rest ''import''"
    and nb: "\<not> prefix ''}'' (dropWhile is_space rest)"
  shows "re_sub empty_import_re [TLit []] (pre @ ''import {'' @ rest) = pre @ ''import {'' @ rest"
proof -
  let ?r = empty_import_re
  let ?t = "[TLit []]"
  let ?z = "''import {'' @ rest"
  have nd: "needs ?r ''import''" by (simp add: empty_import_re_def)
  have skip: "rmatch ?r (drop i pre @ ?z) (\<lambda>_. None) = []" if "i < length pre" for i
  proof -
    have "\<not> prefix ''import'' (drop i pre @ ?z)"
      by (rule no_occurrence_before[OF _ np that]) (use line in \<open>auto simp: nl_def\<close>)
    then show ?thesis by (simp add: empty_import_re_def)
  qed
  have here: "rmatch ?r ?z (\<lambda>_. None) = []"
    using nb by (simp add: empty_import_re_def rep_then_lit del: rmatch.simps(4))
  have "sub_go ?r ?t False (pre @ ?z) = pre @ sub_go ?r ?t False ?z"
    by (rule sub_go_skip) (rule skip)
  also have "sub_go ?r ?t False ?z = CHR ''i'' # sub_go ?r ?t False (''mport {'' @ rest)"
    using here by (simp add: sub_go_Cons_skip)
  also have "sub_go ?r ?t False (''mport {'' @ rest) = ''mport {'' @ sub_go ?r ?t False rest"
    by (simp add: empty_import_re_def sub_go_Cons_skip)
  also have "sub_go ?r ?t False rest = rest"
    by (rule sub_go_no_lit[OF nd nr])
  finally show ?thesis by (simp add: re_sub_def)
qed

lemma remove_from_import_first:
  assumes "pre = [] \<or> last pre = nl"
    and "\<not> contains pre ''foo''" and "\<not> contains rest ''foo''"
    and "\<not> contains pre ''import''" and "\<not> contains rest ''import''"
    and "\<not> prefix ''}'' (dropWhile is_space rest)"
  shows "remove_from_import (pre @ ''import { foo,'' @ rest) ''foo'' = pre @ ''import {'' @ rest"
  unfolding remove_from_import_def Let_def
  by (simp only: single_noop[OF assms(2,3)] after_comma_noop[OF assms(2,3)]
      first_removed[OF assms(2,3)] empty_import_noop[OF assms(1,4,5,6)])

section \<open>The lint output for one unused symbol\<close>

lemma strip_id: "\<forall>c\<in>set s. \<not> is_space c \<Longrightarrow> strip s = s"
proof -
  assume a: "\<forall>c\<in>set s. \<not> is_space c"
  then have 1: "dropWhile is_space s = s" by (cases s) auto
  from a have "\<forall>c\<in>set (rev s). \<not> is_space c" by simp
  then have 2: "dropWhile is_space (rev s) = rev s" by (cases "rev s") auto
  show ?thesis by (simp add: strip_def 1 2)
qed

lemma unused_foo_line_facts:
  "\<not> startswith (strip unused_foo_line) ''/Users''"
  "contains unused_foo_line [squote]"
  "contains unused_foo_line ''is defined but never used''"
  "map_option (\<lambda>(s, g). match_group g 1) (search quoted_re unused_foo_line) = Some ''foo''"
  "map_option (\<lambda>(s, g). match_group g 1) (first_match lineno_re False unused_foo_line) = Some ''3''"
  "nl \<notin> set unused_foo_line"
  by code_simp+

lemma scan_unused_foo_line:
  assumes "file \<noteq> []"
  shows "scan_line (Some file, []) unused_foo_line = (Some file, [(file, [(3, ''foo'')])])"
proof -
  from unused_foo_line_facts(4) obtain s g where
    q: "search quoted_re unused_foo_line = Some (s, g)" and qg: "match_group g 1 = ''foo''"
    by (cases "search quoted_re unused_foo_line") auto
  from unused_foo_line_facts(5) obtain s' g' where
    l: "first_match lineno_re False unused_foo_line = Some (s', g')" and lg: "match_group g' 1 = ''3''"
    by (cases "first_match lineno_re False unused_foo_line") auto
  show ?thesis
    using assms unused_foo_line_facts(1,2,3) qg lg by (simp add: q l)
qed

lemma get_unused_foo:
  assumes p: "startswith path ''/Users''" and ns: "\<forall>c\<in>set path. \<not> is_space c"
    and out: "out @ err = path @ [nl] @ unused_foo_line @ [nl]"
  shows "get_unused_items out err = [(path, [(3, ''foo'')])]"
proof -
  have "is_space nl" by (simp add: is_space_def nl_def)
  with ns have n1: "nl \<notin> set path" by auto
  from p have ne: "path \<noteq> []" by (auto simp: startswith_def)
  have "split_on nl (path @ nl # unused_foo_line @ nl # []) = [path, unused_foo_line, []]"
    by (simp only: split_on_append_sep[OF n1] split_on_append_sep[OF unused_foo_line_facts(6)]
        split_on.simps)
  then have sp: "split_on nl (out @ err) = [path, unused_foo_line, []]" by (simp add: out)
  have 1: "scan_line (None, []) path = (Some path, [])"
    using p by (simp add: strip_id[OF ns])
  have 3: "scan_line (Some path, [(path, [(3, ''foo'')])]) [] = (Some path, [(path, [(3, ''foo'')])])"
    by (simp add: strip_def startswith_def)
  show ?thesis
    by (simp add: get_unused_items_def scan_lines_def sp 1 scan_unused_foo_line[OF ne] 3
        del: scan_line.simps)
qed

lemma contains_single: "contains s [c] \<longleftrightarrow> c \<in> set s"
  by (induction s) auto

lemma edit_line_no_colon: "CHR '':'' \<notin> set l \<Longrightarrow> edit_line p l = l"
proof -
  assume "CHR '':'' \<notin> set l"
  then have n: "\<not> contains l '':''" by (simp add: contains_single)
  have 1: "re_sub (param_after_comma_re p) [TLit '',''] l = l"
    by (rule re_sub_no_lit[OF _ n]) (simp add: param_after_comma_re_def)
  have 2: "re_sub (param_first_re p) [TLit ''(''] l = l"
    by (rule re_sub_no_lit[OF _ n]) (simp add: param_first_re_def)
  have 3: "re_sub annotation_re [TLit '': ''] l = l"
    by (rule re_sub_no_lit[OF _ n]) (simp add: annotation_re_def)
  show ?thesis by (simp add: edit_line_def 1 2 3)
qed

lemma split_on_head:
  "d \<notin> set x \<Longrightarrow> below = [] \<or> hd below = d \<Longrightarrow> \<exists>ls. split_on d (x @ below) = x # ls"
proof (cases below)
  case Nil
  assume "d \<notin> set x"
  then show ?thesis using Nil by (simp add: split_on_free)
next
  case (Cons c cs)
  assume "d \<notin> set x" "below = [] \<or> hd below = d"
  then show ?thesis using Cons by (simp add: split_on_append_sep)
qed

lemma remove_parameter_third_line:
  assumes "nl \<notin> set l1" "nl \<notin> set l2" "nl \<notin> set x" "below = [] \<or> hd below = nl"
    and "CHR '':'' \<notin> set x"
  shows "remove_parameter (l1 @ nl # l2 @ nl # x @ below) p 3 = Inr (l1 @ nl # l2 @ nl # x @ below)"
proof -
  let ?c = "l1 @ nl # l2 @ nl # x @ below"
  from split_on_head[OF assms(3,4)] obtain ls where "split_on nl (x @ below) = x # ls" by blast
  then have sp: "split_on nl ?c = l1 # l2 # x # ls"
    by (simp add: split_on_append_sep[OF assms(1)] split_on_append_sep[OF assms(2)])
  have "join_on nl (l1 # l2 # x # ls) = ?c"
    unfolding sp[symmetric] by (rule join_split)
  then show ?thesis
    by (simp add: remove_parameter_def Let_def sp py_index_def edit_line_no_colon[OF assms(5)]
        del: join_on.simps)
qed

section \<open>The dead-code remover on one import\<close>

lemma sorted_desc_single: "sorted_desc [x] = [x]"
  by (simp add: sorted_desc_def)

section \<open>Line ends of a text read from a file\<close>

lemma universal_newlines_Cons:
  "c \<noteq> cr \<Longrightarrow> universal_newlines (c # cs) = c # universal_newlines cs"
  by (cases cs) simp_all

lemma universal_newlines_Cons':
  "cr \<noteq> c \<Longrightarrow> universal_newlines (c # cs) = c # universal_newlines cs"
  by (cases cs) auto

lemma universal_newlines_no_cr: "cr \<notin> set (universal_newlines s)"
  by (induction s rule: universal_newlines.induct) (auto simp: cr_def nl_def)

lemma universal_newlines_id: "cr \<notin> set s \<Longrightarrow> universal_newlines s = s"
  by (induction s) (simp_all add: universal_newlines_Cons')

lemma universal_newlines_idem:
  "universal_newlines (universal_newlines s) = universal_newlines s"
  by (rule universal_newlines_id) (rule universal_newlines_no_cr)

lemma universal_newlines_append_plain:
  "cr \<notin> set w \<Longrightarrow> universal_newlines (w @ b) = w @ universal_newlines b"
  by (induction w) (simp_all add: universal_newlines_Cons')

lemma universal_newlines_append:
  "b = [] \<or> hd b \<noteq> nl \<Longrightarrow> universal_newlines (a @ b) = universal_newlines a @ universal_newlines b"
proof (induction a rule: universal_newlines.induct)
  case 1
  show ?case by simp
next
  case (2 c)
  then show ?case by (cases b) auto
next
  case (3 c d cs)
  then show ?case by simp
qed

lemma prefix_universal_newlines:
  "prefix w (universal_newlines s) \<Longrightarrow> nl \<notin> set w \<Longrightarrow> prefix w s"
proof (induction w arbitrary: s)
  case Nil
  show ?case by simp
next
  case (Cons c w)
  from Cons.prems(1) obtain r where u: "universal_newlines s = c # r" and p: "prefix w r"
    by (cases "universal_newlines s") auto
  from Cons.prems(2) have cn: "c \<noteq> nl" by auto
  from u obtain d s' where s: "s = d # s'" by (cases s) auto
  have dc: "d \<noteq> cr"
  proof
    assume "d = cr"
    with s have "hd (universal_newlines s) = nl" by (cases s') auto
    with u cn show False by simp
  qed
  from u s dc have "d = c" and "universal_newlines s' = r"
    by (simp_all add: universal_newlines_Cons)
  with p Cons.IH[of s'] Cons.prems(2) s show ?case by simp
qed

lemma contains_universal_newlines:
  "contains (universal_newlines s) w \<Longrightarrow> nl \<notin> set w \<Longrightarrow> contains s w"
proof (induction s rule: universal_newlines.induct)
  case 1
  then show ?case by simp
next
  case (2 c)
  from "2.prems" have "prefix w (universal_newlines [c]) \<or> w = []" by auto
  then show ?case
  proof
    assume "prefix w (universal_newlines [c])"
    from prefix_universal_newlines[OF this "2.prems"(2)] show ?thesis by simp
  next
    assume "w = []"
    then show ?thesis by simp
  qed
next
  case (3 c d cs)
  from "3.prems"(1) have "prefix w (universal_newlines (c # d # cs)) \<or>
      contains (tl (universal_newlines (c # d # cs))) w"
    by (cases "universal_newlines (c # d # cs)") auto
  then show ?case
  proof
    assume "prefix w (universal_newlines (c # d # cs))"
    from prefix_universal_newlines[OF this "3.prems"(2)] show ?thesis by simp
  next
    assume t: "contains (tl (universal_newlines (c # d # cs))) w"
    show ?thesis
    proof (cases "c = cr \<and> d = nl")
      case True
      with t have "contains (universal_newlines cs) w" by simp
      from "3.IH"(1)[OF True this "3.prems"(2)] have "contains (drop 2 (c # d # cs)) w" by simp
      then show ?thesis by (rule contains_drop)
    next
      case False
      with t have "contains (universal_newlines (d # cs)) w" by auto
      from "3.IH"(2)[OF False this "3.prems"(2)] have "contains (drop 1 (c # d # cs)) w" by simp
      then show ?thesis by (rule contains_drop)
    qed
  qed
qed

section \<open>What the import fixers write\<close>

lemma fix_unused_imports_skip:
  "fs f = None \<Longrightarrow>
   fix_unused_imports (f # rest) fs =
     (fst (fix_unused_imports rest fs), Said (Skipping f) # snd (fix_unused_imports rest fs))"
  by (simp add: case_prod_beta)

lemma fix_unused_imports_keep:
  "fs f = Some stored \<Longrightarrow> fix_step_config (universal_newlines stored) = universal_newlines stored \<Longrightarrow>
   fix_unused_imports (f # rest) fs =
     (fst (fix_unused_imports rest fs), Said (NoChange f) # snd (fix_unused_imports rest fs))"
  by (simp add: case_prod_beta Let_def)

lemma fix_unused_imports_write:
  "fs f = Some stored \<Longrightarrow> fix_step_config (universal_newlines stored) \<noteq> universal_newlines stored \<Longrightarrow>
   fix_unused_imports (f # rest) fs =
     (fst (fix_unused_imports rest (fs(f \<mapsto> fix_step_config (universal_newlines stored)))),
      Wrote f (fix_step_config (universal_newlines stored)) # Said (Fixed f) #
      snd (fix_unused_imports rest (fs(f \<mapsto> fix_step_config (universal_newlines stored)))))"
  by (simp add: case_prod_beta Let_def)

lemma fix_unused_imports_run:
  "distinct fps \<Longrightarrow>
   written (snd (fix_unused_imports fps fs)) = filter (step_config_changes fs) fps \<and>
   (\<forall>p c. Wrote p c \<in> set (snd (fix_unused_imports fps fs)) \<longleftrightarrow>
      p \<in> set fps \<and> step_config_changes fs p \<and>
      map_option (fix_step_config \<circ> universal_newlines) (fs p) = Some c) \<and>
   (\<forall>p. fst (fix_unused_imports fps fs) p =
      (if p \<in> set fps \<and> step_config_changes fs p
       then map_option (fix_step_config \<circ> universal_newlines) (fs p)
       else fs p))"
proof (induction fps arbitrary: fs)
  case Nil
  show ?case by simp
next
  case (Cons f rest)
  then have d: "distinct rest" and nf: "f \<notin> set rest" by auto
  note ih = Cons.IH[OF d]
  show ?case
  proof (cases "fs f")
    case None
    then have nc: "\<not> step_config_changes fs f" by (simp add: step_config_changes_def)
    show ?thesis
      unfolding fix_unused_imports_skip[where fs = fs and f = f, OF None] using ih[of fs] nc None by auto
  next
    case (Some stored)
    let ?c = "universal_newlines stored"
    show ?thesis
    proof (cases "fix_step_config ?c = ?c")
      case True
      then have nc: "\<not> step_config_changes fs f" using Some by (simp add: step_config_changes_def)
      show ?thesis
        unfolding fix_unused_imports_keep[where fs = fs and f = f, OF Some True] using ih[of fs] nc Some by auto
    next
      case False
      then have ch: "step_config_changes fs f" using Some by (simp add: step_config_changes_def)
      let ?fs = "fs(f \<mapsto> fix_step_config ?c)"
      have same: "step_config_changes ?fs p = step_config_changes fs p" if "p \<noteq> f" for p
        using that by (simp add: step_config_changes_def)
      have fl: "filter (step_config_changes ?fs) rest = filter (step_config_changes fs) rest"
        using nf by (intro filter_cong refl same) auto
      show ?thesis
        unfolding fix_unused_imports_write[where fs = fs and f = f, OF Some False]
        using ih[of ?fs] ch Some nf fl same by (auto simp: fun_upd_def)
    qed
  qed
qed

lemma fix_coordinator_imports_skip:
  "fs f = None \<Longrightarrow>
   fix_coordinator_imports (f # rest) fs =
     (fst (fix_coordinator_imports rest fs),
      Said (Skipping f) # snd (fix_coordinator_imports rest fs))"
  by (simp add: case_prod_beta)

lemma fix_coordinator_imports_keep:
  "fs f = Some stored \<Longrightarrow> fix_coordinator (universal_newlines stored) = universal_newlines stored \<Longrightarrow>
   \<exists>m. fix_coordinator_imports (f # rest) fs =
     (fst (fix_coordinator_imports rest fs), Said m # snd (fix_coordinator_imports rest fs))"
  by (auto simp: case_prod_beta Let_def fix_coordinator_def)

lemma fix_coordinator_imports_write:
  "fs f = Some stored \<Longrightarrow> fix_coordinator (universal_newlines stored) \<noteq> universal_newlines stored \<Longrightarrow>
   fix_coordinator_imports (f # rest) fs =
     (fst (fix_coordinator_imports rest (fs(f \<mapsto> fix_coordinator (universal_newlines stored)))),
      Wrote f (fix_coordinator (universal_newlines stored)) # Said (Fixed f) #
      snd (fix_coordinator_imports rest (fs(f \<mapsto> fix_coordinator (universal_newlines stored)))))"
  by (auto simp: case_prod_beta Let_def fix_coordinator_def split: if_splits)

lemma fix_coordinator_imports_run:
  "distinct fps \<Longrightarrow>
   written (snd (fix_coordinator_imports fps fs)) = filter (coordinator_changes fs) fps \<and>
   (\<forall>p c. Wrote p c \<in> set (snd (fix_coordinator_imports fps fs)) \<longleftrightarrow>
      p \<in> set fps \<and> coordinator_changes fs p \<and>
      map_option (fix_coordinator \<circ> universal_newlines) (fs p) = Some c) \<and>
   (\<forall>p. fst (fix_coordinator_imports fps fs) p =
      (if p \<in> set fps \<and> coordinator_changes fs p
       then map_option (fix_coordinator \<circ> universal_newlines) (fs p)
       else fs p))"
proof (induction fps arbitrary: fs)
  case Nil
  show ?case by simp
next
  case (Cons f rest)
  then have d: "distinct rest" and nf: "f \<notin> set rest" by auto
  note ih = Cons.IH[OF d]
  show ?case
  proof (cases "fs f")
    case None
    then have nc: "\<not> coordinator_changes fs f" by (simp add: coordinator_changes_def)
    show ?thesis
      unfolding fix_coordinator_imports_skip[where fs = fs and f = f, OF None]
      using ih[of fs] nc None by auto
  next
    case (Some stored)
    let ?c = "universal_newlines stored"
    show ?thesis
    proof (cases "fix_coordinator ?c = ?c")
      case True
      then have nc: "\<not> coordinator_changes fs f" using Some by (simp add: coordinator_changes_def)
      from fix_coordinator_imports_keep[where fs = fs and f = f, OF Some True] obtain m where
        "fix_coordinator_imports (f # rest) fs =
         (fst (fix_coordinator_imports rest fs), Said m # snd (fix_coordinator_imports rest fs))"
        by blast
      then show ?thesis using ih[of fs] nc Some by auto
    next
      case False
      then have ch: "coordinator_changes fs f" using Some by (simp add: coordinator_changes_def)
      let ?fs = "fs(f \<mapsto> fix_coordinator ?c)"
      have same: "coordinator_changes ?fs p = coordinator_changes fs p" if "p \<noteq> f" for p
        using that by (simp add: coordinator_changes_def)
      have fl: "filter (coordinator_changes ?fs) rest = filter (coordinator_changes fs) rest"
        using nf by (intro filter_cong refl same) auto
      show ?thesis
        unfolding fix_coordinator_imports_write[where fs = fs and f = f, OF Some False]
        using ih[of ?fs] ch Some nf fl same by (auto simp: fun_upd_def)
    qed
  qed
qed

section \<open>What the dead-code remover gets through\<close>


lemma cleanup_files_skip:
  "\<not> path_exists bad fs f \<Longrightarrow>
   cleanup_files wd bad ((f, items) # rest) fs tr = cleanup_files wd bad rest fs tr"
  by simp

lemma cleanup_files_stop:
  "blocked wd bad fs f = Some e \<Longrightarrow>
   cleanup_files wd bad ((f, items) # rest) fs tr = \<lparr>files = fs, trace = tr, raised = Some e\<rparr>"
  by (auto simp: blocked_def split: sum.splits if_splits)

lemma cleanup_files_go:
  assumes "path_exists bad fs f" "blocked wd bad fs f = None"
  shows "\<exists>stored content.
           fs f = Some stored \<and>
           apply_items (universal_newlines stored) (sorted_desc items) = Inr content \<and>
           cleanup_files wd bad ((f, items) # rest) fs tr =
             (if content \<noteq> universal_newlines stored
              then cleanup_files wd bad rest (fs(f \<mapsto> content)) (tr @ [Wrote f content])
              else cleanup_files wd bad rest fs tr)"
proof -
  from assms obtain parts stored where
    r: "relative_to f wd = Inr parts" and b: "bad f = None" and s: "fs f = Some stored"
    by (auto simp: blocked_def path_exists_def read_text_def split: sum.splits option.splits if_splits)
  obtain content where c: "apply_items (universal_newlines stored) (sorted_desc items) = Inr content"
    using apply_items_total by blast
  show ?thesis
    using assms(1) r b s c by (auto simp: read_text_def)
qed

lemma blocked_upd:
  "fs f \<noteq> None \<Longrightarrow> blocked wd bad (fs(f \<mapsto> c)) p = blocked wd bad fs p"
  by (auto simp: blocked_def path_exists_def read_text_def split: sum.splits option.splits)

lemma processed_upd:
  "fs f \<noteq> None \<Longrightarrow> processed wd bad (fs(f \<mapsto> c)) u = processed wd bad fs u"
  by (simp add: processed_def blocked_upd)

lemma cleanup_files_raised:
  "raised (cleanup_files wd bad u fs tr) =
     (case dropWhile (\<lambda>entry. blocked wd bad fs (fst entry) = None) u of
        [] \<Rightarrow> None
      | entry # _ \<Rightarrow> blocked wd bad fs (fst entry))"
proof (induction u arbitrary: fs tr)
  case Nil
  show ?case by simp
next
  case (Cons entry rest)
  obtain f items where e: "entry = (f, items)" by (cases entry)
  show ?case
  proof (cases "blocked wd bad fs f")
    case (Some err)
    show ?thesis unfolding e cleanup_files_stop[OF Some] using Some by simp
  next
    case None
    show ?thesis
    proof (cases "path_exists bad fs f")
      case False
      show ?thesis unfolding e cleanup_files_skip[OF False] using None Cons.IH[of fs tr]
        by simp
    next
      case True
      from cleanup_files_go[OF True None, of items rest tr] obtain stored content where
        s: "fs f = Some stored" and
        g: "cleanup_files wd bad ((f, items) # rest) fs tr =
             (if content \<noteq> universal_newlines stored
              then cleanup_files wd bad rest (fs(f \<mapsto> content)) (tr @ [Wrote f content])
              else cleanup_files wd bad rest fs tr)" by blast
      from s have ne: "fs f \<noteq> None" by simp
      let ?P = "\<lambda>entry. blocked wd bad fs (fst entry) = None"
      have ih2: "raised (cleanup_files wd bad rest (fs(f \<mapsto> content)) (tr @ [Wrote f content])) =
          (case dropWhile ?P rest of [] \<Rightarrow> None | entry # _ \<Rightarrow> blocked wd bad fs (fst entry))"
        using Cons.IH[of "fs(f \<mapsto> content)" "tr @ [Wrote f content]"]
        by (simp only: blocked_upd[where fs = fs and f = f, OF ne])
      have "raised (cleanup_files wd bad ((f, items) # rest) fs tr) =
          (case dropWhile ?P rest of [] \<Rightarrow> None | entry # _ \<Rightarrow> blocked wd bad fs (fst entry))"
      proof (cases "content \<noteq> universal_newlines stored")
        case True
        with g have "cleanup_files wd bad ((f, items) # rest) fs tr =
            cleanup_files wd bad rest (fs(f \<mapsto> content)) (tr @ [Wrote f content])"
          by (simp del: cleanup_files.simps)
        then show ?thesis by (simp only: ih2)
      next
        case False
        with g have "cleanup_files wd bad ((f, items) # rest) fs tr = cleanup_files wd bad rest fs tr"
          by (simp del: cleanup_files.simps)
        then show ?thesis by (simp only: Cons.IH[of fs tr])
      qed
      moreover have "dropWhile ?P ((f, items) # rest) = dropWhile ?P rest"
        using None by simp
      ultimately show ?thesis unfolding e by (simp only:)
    qed
  qed
qed

lemma cleanup_files_raised_None:
  "raised (cleanup_files wd bad u fs tr) = None \<longleftrightarrow>
   (\<forall>entry \<in> set u. blocked wd bad fs (fst entry) = None)"
proof -
  let ?P = "\<lambda>entry. blocked wd bad fs (fst entry) = None"
  show ?thesis
  proof (cases "dropWhile ?P u")
    case Nil
    then have "\<forall>entry \<in> set u. ?P entry" by (simp add: dropWhile_eq_Nil_conv)
    then show ?thesis unfolding cleanup_files_raised Nil by simp
  next
    case (Cons entry rest)
    have "dropWhile ?P u \<noteq> []" using Cons by simp
    from hd_dropWhile[OF this] Cons have n: "\<not> ?P entry" by simp
    have "entry \<in> set u" using Cons set_dropWhileD[of entry ?P u] by simp
    with n show ?thesis unfolding cleanup_files_raised Cons by auto
  qed
qed

lemma processed_all:
  "processed wd bad fs u = u \<longleftrightarrow> (\<forall>entry \<in> set u. blocked wd bad fs (fst entry) = None)"
  by (simp add: processed_def takeWhile_eq_all_conv)

lemma cleanup_files_run:
  "distinct (map fst u) \<Longrightarrow>
   (\<exists>ws. trace (cleanup_files wd bad u fs tr) = tr @ ws \<and> RanTests \<notin> set ws \<and>
      written ws = map fst (filter (cleanup_changes fs) (processed wd bad fs u)) \<and>
      (\<forall>p c. Wrote p c \<in> set ws \<longleftrightarrow>
         (\<exists>items stored. (p, items) \<in> set (processed wd bad fs u) \<and> fs p = Some stored \<and>
            apply_items (universal_newlines stored) (sorted_desc items) = Inr c \<and>
            c \<noteq> universal_newlines stored)) \<and>
      (\<forall>p. files (cleanup_files wd bad u fs tr) p =
         (if p \<in> set (written ws) then cleanup_result fs u p else fs p)))"
proof (induction u arbitrary: fs tr)
  case Nil
  show ?case by (simp add: processed_def)
next
  case (Cons entry rest)
  obtain f items where e: "entry = (f, items)" by (cases entry)
  from Cons.prems e have d: "distinct (map fst rest)" and nf: "f \<notin> fst ` set rest" by auto
  note ih = Cons.IH[OF d]
  let ?W = "\<lambda>fs u p c. \<exists>items stored. (p, items) \<in> set (processed wd bad fs u) \<and> fs p = Some stored \<and>
            apply_items (universal_newlines stored) (sorted_desc items) = Inr c \<and>
            c \<noteq> universal_newlines stored"
  show ?case
  proof (cases "blocked wd bad fs f")
    case (Some err)
    show ?thesis unfolding e cleanup_files_stop[OF Some] using Some by (simp add: processed_def)
  next
    case None
    then have pr: "processed wd bad fs ((f, items) # rest) = (f, items) # processed wd bad fs rest"
      by (simp add: processed_def)
    have sub: "set (processed wd bad fs rest) \<subseteq> set rest"
      by (auto simp: processed_def dest: set_takeWhileD)
    have pne: "p \<noteq> f" if "(p, it) \<in> set (processed wd bad fs rest)" for p it
      using that sub nf by force
    have res: "cleanup_result fs ((f, items) # rest) p = cleanup_result fs rest p" if "p \<noteq> f" for p
      using that by (simp add: cleanup_result_def)
    \<comment> \<open>the entry leaves everything as it is\<close>
    have quiet: ?thesis
      if nc: "\<not> cleanup_changes fs (f, items)"
        and nw: "\<And>stored c. fs f = Some stored \<Longrightarrow>
                  apply_items (universal_newlines stored) (sorted_desc items) = Inr c \<Longrightarrow>
                  c = universal_newlines stored"
        and g: "cleanup_files wd bad ((f, items) # rest) fs tr = cleanup_files wd bad rest fs tr"
    proof -
      from ih[of fs tr] obtain ws where
        w1: "trace (cleanup_files wd bad rest fs tr) = tr @ ws" and w2: "RanTests \<notin> set ws" and
        w3: "written ws = map fst (filter (cleanup_changes fs) (processed wd bad fs rest))" and
        w4: "\<forall>p c. Wrote p c \<in> set ws \<longleftrightarrow> ?W fs rest p c" and
        w5: "\<forall>p. files (cleanup_files wd bad rest fs tr) p =
               (if p \<in> set (written ws) then cleanup_result fs rest p else fs p)"
        by blast
      have fw: "f \<notin> set (written ws)" using w3 pne by fastforce
      have c3: "written ws = map fst (filter (cleanup_changes fs) (processed wd bad fs ((f, items) # rest)))"
        unfolding pr using w3 nc by simp
      have c4: "Wrote p c \<in> set ws \<longleftrightarrow> ?W fs ((f, items) # rest) p c" for p c
      proof
        assume "Wrote p c \<in> set ws"
        with w4 have "?W fs rest p c" by simp
        then show "?W fs ((f, items) # rest) p c" unfolding pr by auto
      next
        assume "?W fs ((f, items) # rest) p c"
        then obtain it stored where
          m: "(p, it) \<in> set ((f, items) # processed wd bad fs rest)" and
          st: "fs p = Some stored"
            "apply_items (universal_newlines stored) (sorted_desc it) = Inr c"
            "c \<noteq> universal_newlines stored"
          unfolding pr by blast
        from m st nw have "(p, it) \<in> set (processed wd bad fs rest)" by auto
        with st have "?W fs rest p c" by blast
        with w4 show "Wrote p c \<in> set ws" by simp
      qed
      have c5: "files (cleanup_files wd bad rest fs tr) p =
               (if p \<in> set (written ws) then cleanup_result fs ((f, items) # rest) p else fs p)" for p
        by (cases "p = f") (use w5 fw res[of p] in auto)
      show ?thesis
        unfolding e g
        by (intro exI[of _ ws] conjI allI w1 w2 c3 c4 c5)
    qed
    show ?thesis
    proof (cases "path_exists bad fs f")
      case False
      then have n: "fs f = None" by (simp add: path_exists_def)
      then have nc: "\<not> cleanup_changes fs (f, items)" by (simp add: cleanup_changes_def)
      show ?thesis
        by (rule quiet[OF nc _ cleanup_files_skip[OF False]]) (simp add: n)
    next
      case True
      from cleanup_files_go[OF True None, of items rest tr] obtain stored content where
        s: "fs f = Some stored" and
        a: "apply_items (universal_newlines stored) (sorted_desc items) = Inr content" and
        g: "cleanup_files wd bad ((f, items) # rest) fs tr =
             (if content \<noteq> universal_newlines stored
              then cleanup_files wd bad rest (fs(f \<mapsto> content)) (tr @ [Wrote f content])
              else cleanup_files wd bad rest fs tr)" by blast
      from s have ne: "fs f \<noteq> None" by simp
      show ?thesis
      proof (cases "content = universal_newlines stored")
        case same: True
        then have nc: "\<not> cleanup_changes fs (f, items)" using s a by (simp add: cleanup_changes_def)
        from g same have g': "cleanup_files wd bad ((f, items) # rest) fs tr =
            cleanup_files wd bad rest fs tr" by simp
        show ?thesis
          by (rule quiet[OF nc _ g']) (use s a same in auto)
      next
        case diff: False
        then have ch: "cleanup_changes fs (f, items)" using s a by (simp add: cleanup_changes_def)
        let ?fs = "fs(f \<mapsto> content)"
        from g diff have g': "cleanup_files wd bad ((f, items) # rest) fs tr =
            cleanup_files wd bad rest ?fs (tr @ [Wrote f content])" by simp
        have chs: "cleanup_changes ?fs en = cleanup_changes fs en" if "fst en \<noteq> f" for en
          using that by (simp add: cleanup_changes_def)
        have fl: "filter (cleanup_changes ?fs) (processed wd bad fs rest) =
                  filter (cleanup_changes fs) (processed wd bad fs rest)"
          using pne by (intro filter_cong refl chs) fastforce
        have rs: "cleanup_result ?fs rest p = cleanup_result fs rest p" if "p \<noteq> f" for p
          using that by (simp add: cleanup_result_def)
        note pu = processed_upd[where fs = fs and f = f, OF ne, of wd bad content rest]
        from ih[of ?fs "tr @ [Wrote f content]"] obtain ws where
          w1: "trace (cleanup_files wd bad rest ?fs (tr @ [Wrote f content])) =
                (tr @ [Wrote f content]) @ ws" and w2: "RanTests \<notin> set ws" and
          w3': "written ws = map fst (filter (cleanup_changes ?fs) (processed wd bad ?fs rest))" and
          w4': "\<forall>p c. Wrote p c \<in> set ws \<longleftrightarrow> ?W ?fs rest p c" and
          w5: "\<forall>p. files (cleanup_files wd bad rest ?fs (tr @ [Wrote f content])) p =
               (if p \<in> set (written ws) then cleanup_result ?fs rest p else ?fs p)"
          by blast
        have w3: "written ws = map fst (filter (cleanup_changes fs) (processed wd bad fs rest))"
          using w3' unfolding pu fl .
        have fw: "f \<notin> set (written ws)" using w3 pne by fastforce
        have w4: "Wrote p c \<in> set ws \<longleftrightarrow> ?W fs rest p c" for p c
        proof -
          have "?W ?fs rest p c \<longleftrightarrow> ?W fs rest p c"
          proof
            assume "?W ?fs rest p c"
            then obtain it st where
              m: "(p, it) \<in> set (processed wd bad fs rest)" and
              st: "?fs p = Some st"
                "apply_items (universal_newlines st) (sorted_desc it) = Inr c"
                "c \<noteq> universal_newlines st"
              unfolding pu by blast
            from pne[OF m] st(1) have "fs p = Some st" by simp
            with m st(2,3) show "?W fs rest p c" by blast
          next
            assume "?W fs rest p c"
            then obtain it st where
              m: "(p, it) \<in> set (processed wd bad fs rest)" and
              st: "fs p = Some st"
                "apply_items (universal_newlines st) (sorted_desc it) = Inr c"
                "c \<noteq> universal_newlines st"
              by blast
            from pne[OF m] st(1) have "?fs p = Some st" by simp
            with m st(2,3) show "?W ?fs rest p c" unfolding pu by blast
          qed
          with w4' show ?thesis by simp
        qed
        have rf: "cleanup_result fs ((f, items) # rest) f = Some content"
          using s a by (simp add: cleanup_result_def)
        have c1: "trace (cleanup_files wd bad rest ?fs (tr @ [Wrote f content])) =
            tr @ (Wrote f content # ws)" using w1 by simp
        have c2: "RanTests \<notin> set (Wrote f content # ws)" using w2 by simp
        have c3: "written (Wrote f content # ws) =
            map fst (filter (cleanup_changes fs) (processed wd bad fs ((f, items) # rest)))"
          unfolding pr using w3 ch by simp
        have c4: "Wrote p c \<in> set (Wrote f content # ws) \<longleftrightarrow> ?W fs ((f, items) # rest) p c" for p c
        proof
          assume "Wrote p c \<in> set (Wrote f content # ws)"
          then consider "p = f" "c = content" | "Wrote p c \<in> set ws" by auto
          then show "?W fs ((f, items) # rest) p c"
          proof cases
            case 1
            then show ?thesis unfolding pr using s a diff by auto
          next
            case 2
            with w4 have "?W fs rest p c" by simp
            then show ?thesis unfolding pr by auto
          qed
        next
          assume "?W fs ((f, items) # rest) p c"
          then obtain it st where
            m: "(p, it) \<in> set ((f, items) # processed wd bad fs rest)" and
            st: "fs p = Some st"
              "apply_items (universal_newlines st) (sorted_desc it) = Inr c"
              "c \<noteq> universal_newlines st"
            unfolding pr by blast
          show "Wrote p c \<in> set (Wrote f content # ws)"
          proof (cases "(p, it) = (f, items)")
            case True
            with st s a show ?thesis by simp
          next
            case False
            with m have "(p, it) \<in> set (processed wd bad fs rest)" by auto
            with st have "?W fs rest p c" by blast
            with w4 show ?thesis by simp
          qed
        qed
        have c5: "files (cleanup_files wd bad rest ?fs (tr @ [Wrote f content])) p =
               (if p \<in> set (written (Wrote f content # ws))
                then cleanup_result fs ((f, items) # rest) p else fs p)" for p
        proof (cases "p = f")
          case True
          with w5 fw rf show ?thesis by simp
        next
          case False
          with w5 res[OF False] rs[OF False] show ?thesis by simp
        qed
        show ?thesis
          unfolding e g'
          by (intro exI[of _ "Wrote f content # ws"] conjI allI c1 c2 c3 c4 c5)
      qed
    qed
  qed
qed

section \<open>The test run of the dead-code remover\<close>

lemma main_no_items:
  "get_unused_items (lint_stdout e) (lint_stderr e) = [] \<Longrightarrow>
   main e fs = \<lparr>files = fs, trace = [], raised = None\<rparr>"
  by (simp add: main_def)

lemma main_items:
  fixes e :: env and fs :: fs
  assumes "get_unused_items (lint_stdout e) (lint_stderr e) \<noteq> []"
  defines "r \<equiv> cleanup_files (cwd e) (unreadable e)
                 (get_unused_items (lint_stdout e) (lint_stderr e)) fs []"
  shows "files (main e fs) = files r" and "raised (main e fs) = raised r"
    and "trace (main e fs) = (if raised r = None then trace r @ [RanTests] else trace r)"
  using assms(1) by (cases "raised r"; simp add: main_def Let_def r_def)+





section \<open>Writing only what changed\<close>

lemma in_set_Cons_Wrote [simp]: "Wrote p c \<in> set (es @ [RanTests]) \<longleftrightarrow> Wrote p c \<in> set es"
  by simp

text \<open>
  Claim C6. In both import fixers and in the dead-code remover a file is written back
  exactly when the text arrived at differs from the text read from it, and it then holds
  that text; every other path of the file system, listed or not, keeps what it held. For the
  fixers the files concerned are the listed ones, each written at most once and in the
  order of the list; for the remover they are the collected ones the run gets through,
  which are all of them when the run raises nothing.
\<close>

theorem write_only_if_changed:
  "(\<forall>p c. Wrote p c \<in> set (snd (fix_unused_imports files_to_fix fs)) \<longleftrightarrow>
      p \<in> set files_to_fix \<and>
      (\<exists>stored. fs p = Some stored \<and> c = fix_step_config (universal_newlines stored) \<and>
         c \<noteq> universal_newlines stored)) \<and>
   (\<forall>p c. Wrote p c \<in> set (snd (fix_unused_imports files_to_fix fs)) \<longrightarrow>
      fst (fix_unused_imports files_to_fix fs) p = Some c) \<and>
   (\<forall>p. (\<forall>c. Wrote p c \<notin> set (snd (fix_unused_imports files_to_fix fs))) \<longrightarrow>
      fst (fix_unused_imports files_to_fix fs) p = fs p) \<and>
   written (snd (fix_unused_imports files_to_fix fs)) = filter (step_config_changes fs) files_to_fix \<and>
   (\<forall>p c. Wrote p c \<in> set (snd (fix_coordinator_imports files_to_check fs)) \<longleftrightarrow>
      p \<in> set files_to_check \<and>
      (\<exists>stored. fs p = Some stored \<and>
         contains (universal_newlines stored) ''WorkflowCoordinator'' \<and>
         count_sub (universal_newlines stored) ''WorkflowCoordinator'' = 1 \<and>
         contains (universal_newlines stored) ''import { WorkflowCoordinator }'' \<and>
         c = remove_coordinator (universal_newlines stored) \<and> c \<noteq> universal_newlines stored)) \<and>
   (\<forall>p c. Wrote p c \<in> set (snd (fix_coordinator_imports files_to_check fs)) \<longrightarrow>
      fst (fix_coordinator_imports files_to_check fs) p = Some c) \<and>
   (\<forall>p. (\<forall>c. Wrote p c \<notin> set (snd (fix_coordinator_imports files_to_check fs))) \<longrightarrow>
      fst (fix_coordinator_imports files_to_check fs) p = fs p) \<and>
   written (snd (fix_coordinator_imports files_to_check fs)) =
     filter (coordinator_changes fs) files_to_check \<and>
   (\<forall>p c. Wrote p c \<in> set (trace (main e fs)) \<longleftrightarrow>
      (\<exists>items stored.
         (p, items) \<in> set (processed (cwd e) (unreadable e) fs
                             (get_unused_items (lint_stdout e) (lint_stderr e))) \<and>
         fs p = Some stored \<and>
         apply_items (universal_newlines stored) (sorted_desc items) = Inr c \<and>
         c \<noteq> universal_newlines stored)) \<and>
   (\<forall>p c. Wrote p c \<in> set (trace (main e fs)) \<longrightarrow> files (main e fs) p = Some c) \<and>
   (\<forall>p. (\<forall>c. Wrote p c \<notin> set (trace (main e fs))) \<longrightarrow> files (main e fs) p = fs p) \<and>
   written (trace (main e fs)) =
     map fst (filter (cleanup_changes fs)
       (processed (cwd e) (unreadable e) fs (get_unused_items (lint_stdout e) (lint_stderr e)))) \<and>
   (raised (main e fs) = None \<longrightarrow>
      processed (cwd e) (unreadable e) fs (get_unused_items (lint_stdout e) (lint_stderr e)) =
      get_unused_items (lint_stdout e) (lint_stderr e))"
proof -
  have d1: "distinct files_to_fix" by (simp add: files_to_fix_def)
  have d2: "distinct files_to_check" by (simp add: files_to_check_def)
  note r1 = fix_unused_imports_run[OF d1, of fs]
  note r2 = fix_coordinator_imports_run[OF d2, of fs]
  let ?es1 = "snd (fix_unused_imports files_to_fix fs)"
  let ?es2 = "snd (fix_coordinator_imports files_to_check fs)"
  \<comment> \<open>fix-unused-imports\<close>
  have a1: "Wrote p c \<in> set ?es1 \<longleftrightarrow>
      p \<in> set files_to_fix \<and>
      (\<exists>stored. fs p = Some stored \<and> c = fix_step_config (universal_newlines stored) \<and>
         c \<noteq> universal_newlines stored)" for p c
    using r1 by (auto simp: step_config_changes_def split: option.splits)
  have a2: "fst (fix_unused_imports files_to_fix fs) p = Some c" if "Wrote p c \<in> set ?es1" for p c
    using r1 that by auto
  have a3: "fst (fix_unused_imports files_to_fix fs) p = fs p" if "\<forall>c. Wrote p c \<notin> set ?es1" for p
  proof (cases "p \<in> set files_to_fix \<and> step_config_changes fs p")
    case True
    then obtain stored where "fs p = Some stored" by (auto simp: step_config_changes_def split: option.splits)
    with True r1 have "Wrote p (fix_step_config (universal_newlines stored)) \<in> set ?es1" by simp
    with that show ?thesis by simp
  next
    case False
    with r1 show ?thesis by auto
  qed
  have a4: "written ?es1 = filter (step_config_changes fs) files_to_fix" using r1 by simp
  \<comment> \<open>fix-workflow-coordinator-imports\<close>
  have b1: "Wrote p c \<in> set ?es2 \<longleftrightarrow>
      p \<in> set files_to_check \<and>
      (\<exists>stored. fs p = Some stored \<and>
         contains (universal_newlines stored) ''WorkflowCoordinator'' \<and>
         count_sub (universal_newlines stored) ''WorkflowCoordinator'' = 1 \<and>
         contains (universal_newlines stored) ''import { WorkflowCoordinator }'' \<and>
         c = remove_coordinator (universal_newlines stored) \<and> c \<noteq> universal_newlines stored)" for p c
    using r2 by (auto simp: coordinator_changes_def fix_coordinator_def split: option.splits if_splits)
  have b2: "fst (fix_coordinator_imports files_to_check fs) p = Some c" if "Wrote p c \<in> set ?es2" for p c
    using r2 that by auto
  have b3: "fst (fix_coordinator_imports files_to_check fs) p = fs p"
    if "\<forall>c. Wrote p c \<notin> set ?es2" for p
  proof (cases "p \<in> set files_to_check \<and> coordinator_changes fs p")
    case True
    then obtain stored where "fs p = Some stored"
      by (auto simp: coordinator_changes_def split: option.splits)
    with True r2 have "Wrote p (fix_coordinator (universal_newlines stored)) \<in> set ?es2" by simp
    with that show ?thesis by simp
  next
    case False
    with r2 show ?thesis by auto
  qed
  have b4: "written ?es2 = filter (coordinator_changes fs) files_to_check" using r2 by simp
  \<comment> \<open>the dead-code remover\<close>
  let ?u = "get_unused_items (lint_stdout e) (lint_stderr e)"
  let ?r = "cleanup_files (cwd e) (unreadable e) ?u fs []"
  let ?pr = "processed (cwd e) (unreadable e) fs ?u"
  let ?W = "\<lambda>p c. \<exists>items stored. (p, items) \<in> set ?pr \<and> fs p = Some stored \<and>
         apply_items (universal_newlines stored) (sorted_desc items) = Inr c \<and>
         c \<noteq> universal_newlines stored"
  have d3: "distinct (map fst ?u)" by (rule get_unused_items_distinct)
  from cleanup_files_run[OF d3, of "cwd e" "unreadable e" fs "[]"] obtain ws where
    w1: "trace ?r = [] @ ws" and w2: "RanTests \<notin> set ws" and
    w3: "written ws = map fst (filter (cleanup_changes fs) ?pr)" and
    w4: "\<forall>p c. Wrote p c \<in> set ws \<longleftrightarrow> ?W p c" and
    w5: "\<forall>p. files ?r p = (if p \<in> set (written ws) then cleanup_result fs ?u p else fs p)"
    by blast
  have tr: "(Wrote p c \<in> set (trace (main e fs)) \<longleftrightarrow> Wrote p c \<in> set ws) \<and>
            written (trace (main e fs)) = written ws \<and> files (main e fs) = files ?r \<and>
            raised (main e fs) = raised ?r" for p c
  proof (cases "?u = []")
    case True
    then have "ws = []" using w1 by simp
    with True show ?thesis by (simp add: main_no_items)
  next
    case False
    from main_items[OF False, of fs] w1 show ?thesis by (simp add: written_append)
  qed
  have c1: "Wrote p c \<in> set (trace (main e fs)) \<longleftrightarrow> ?W p c" for p c
    using tr[of p c] w4 by simp
  have wr: "p \<in> set (written ws) \<longleftrightarrow> (\<exists>c. Wrote p c \<in> set ws)" for p
    by (induction ws rule: written.induct) auto
  have c2: "files (main e fs) p = Some c" if "Wrote p c \<in> set (trace (main e fs))" for p c
  proof -
    from that tr[of p c] have m: "Wrote p c \<in> set ws" by simp
    with w4 obtain items stored where
      i: "(p, items) \<in> set ?pr" "fs p = Some stored"
        "apply_items (universal_newlines stored) (sorted_desc items) = Inr c" by blast
    from i(1) have "(p, items) \<in> set ?u" by (auto simp: processed_def dest: set_takeWhileD)
    with d3 have "map_of ?u p = Some items" by simp
    with i have "cleanup_result fs ?u p = Some c" by (simp add: cleanup_result_def)
    moreover from m wr have "p \<in> set (written ws)" by blast
    ultimately show ?thesis using w5 tr[of p c] by simp
  qed
  have c3: "files (main e fs) p = fs p" if "\<forall>c. Wrote p c \<notin> set (trace (main e fs))" for p
  proof -
    from that tr have "\<forall>c. Wrote p c \<notin> set ws" by simp
    with wr have "p \<notin> set (written ws)" by blast
    with w5 tr[of p undefined] show ?thesis by simp
  qed
  have c4: "written (trace (main e fs)) = map fst (filter (cleanup_changes fs) ?pr)"
    using tr[of undefined undefined] w3 by simp
  have c5: "raised (main e fs) = None \<longrightarrow> ?pr = ?u"
    using tr[of undefined undefined]
    by (simp add: cleanup_files_raised_None processed_all)
  from a1 have A1: "\<forall>p c. Wrote p c \<in> set ?es1 \<longleftrightarrow>
      p \<in> set files_to_fix \<and>
      (\<exists>stored. fs p = Some stored \<and> c = fix_step_config (universal_newlines stored) \<and>
         c \<noteq> universal_newlines stored)" by (intro allI)
  from a2 have A2: "\<forall>p c. Wrote p c \<in> set ?es1 \<longrightarrow>
      fst (fix_unused_imports files_to_fix fs) p = Some c" by (intro allI impI)
  from a3 have A3: "\<forall>p. (\<forall>c. Wrote p c \<notin> set ?es1) \<longrightarrow>
      fst (fix_unused_imports files_to_fix fs) p = fs p" by (intro allI impI)
  from b1 have B1: "\<forall>p c. Wrote p c \<in> set ?es2 \<longleftrightarrow>
      p \<in> set files_to_check \<and>
      (\<exists>stored. fs p = Some stored \<and>
         contains (universal_newlines stored) ''WorkflowCoordinator'' \<and>
         count_sub (universal_newlines stored) ''WorkflowCoordinator'' = 1 \<and>
         contains (universal_newlines stored) ''import { WorkflowCoordinator }'' \<and>
         c = remove_coordinator (universal_newlines stored) \<and> c \<noteq> universal_newlines stored)"
    by (intro allI)
  from b2 have B2: "\<forall>p c. Wrote p c \<in> set ?es2 \<longrightarrow>
      fst (fix_coordinator_imports files_to_check fs) p = Some c" by (intro allI impI)
  from b3 have B3: "\<forall>p. (\<forall>c. Wrote p c \<notin> set ?es2) \<longrightarrow>
      fst (fix_coordinator_imports files_to_check fs) p = fs p" by (intro allI impI)
  from c1 have C1: "\<forall>p c. Wrote p c \<in> set (trace (main e fs)) \<longleftrightarrow> ?W p c" by (intro allI)
  from c2 have C2: "\<forall>p c. Wrote p c \<in> set (trace (main e fs)) \<longrightarrow> files (main e fs) p = Some c"
    by (intro allI impI)
  from c3 have C3: "\<forall>p. (\<forall>c. Wrote p c \<notin> set (trace (main e fs))) \<longrightarrow> files (main e fs) p = fs p"
    by (intro allI impI)
  show ?thesis
    by (intro conjI A1 A2 A3 a4 B1 B2 B3 b4 C1 C2 C3 c4 c5)
qed

theorem write_only_if_changed_witness:
  "Wrote ''src/workflows/steps/QAStep.ts'' (fixed_import_line @ [nl]) \<in>
     set (snd (fix_unused_imports files_to_fix
       [''src/workflows/steps/QAStep.ts'' \<mapsto> import_line @ [cr, nl],
        ''src/workflows/steps/PlanningStep.ts'' \<mapsto> ''export {};'' @ [cr, nl],
        ''notes.txt'' \<mapsto> import_line])) \<and>
   fst (fix_unused_imports files_to_fix
       [''src/workflows/steps/QAStep.ts'' \<mapsto> import_line @ [cr, nl],
        ''src/workflows/steps/PlanningStep.ts'' \<mapsto> ''export {};'' @ [cr, nl],
        ''notes.txt'' \<mapsto> import_line]) ''src/workflows/steps/QAStep.ts'' =
     Some (fixed_import_line @ [nl]) \<and>
   fst (fix_unused_imports files_to_fix
       [''src/workflows/steps/QAStep.ts'' \<mapsto> import_line @ [cr, nl],
        ''src/workflows/steps/PlanningStep.ts'' \<mapsto> ''export {};'' @ [cr, nl],
        ''notes.txt'' \<mapsto> import_line]) ''src/workflows/steps/PlanningStep.ts'' =
     Some (''export {};'' @ [cr, nl]) \<and>
   fst (fix_unused_imports files_to_fix
       [''src/workflows/steps/QAStep.ts'' \<mapsto> import_line @ [cr, nl],
        ''src/workflows/steps/PlanningStep.ts'' \<mapsto> ''export {};'' @ [cr, nl],
        ''notes.txt'' \<mapsto> import_line]) ''notes.txt'' = Some import_line"
proof -
  let ?q = "''src/workflows/steps/QAStep.ts''"
  let ?p = "''src/workflows/steps/PlanningStep.ts''"
  let ?fs = "[?q \<mapsto> import_line @ [cr, nl], ?p \<mapsto> ''export {};'' @ [cr, nl],
              ''notes.txt'' \<mapsto> import_line]"
  let ?es = "snd (fix_unused_imports files_to_fix ?fs)"
  note t = write_only_if_changed[of ?fs "\<lparr>cwd = [], lint_stdout = [], lint_stderr = [],
      test_returncode = 0, unreadable = (\<lambda>p. None)\<rparr>"]
  note iff = t[THEN conjunct1, rule_format]
  note wr = t[THEN conjunct2, THEN conjunct1, rule_format]
  note keep = t[THEN conjunct2, THEN conjunct2, THEN conjunct1, THEN spec, THEN mp]
  have q1: "fix_step_config (universal_newlines (import_line @ [cr, nl])) = fixed_import_line @ [nl]"
    by code_simp
  have q2: "fixed_import_line @ [nl] \<noteq> universal_newlines (import_line @ [cr, nl])"
    by code_simp
  have q3: "?q \<in> set files_to_fix" by (simp add: files_to_fix_def)
  have p1: "fix_step_config (universal_newlines (''export {};'' @ [cr, nl])) =
            universal_newlines (''export {};'' @ [cr, nl])"
    by code_simp
  have n1: "''notes.txt'' \<notin> set files_to_fix" by (simp add: files_to_fix_def)
  have w: "Wrote ?q (fixed_import_line @ [nl]) \<in> set ?es"
    unfolding iff using q1 q2 q3 by simp
  have np: "\<forall>c. Wrote ?p c \<notin> set ?es"
    unfolding iff using p1 by simp
  have nn: "\<forall>c. Wrote ''notes.txt'' c \<notin> set ?es"
    unfolding iff using n1 by simp
  from wr[OF w] keep[OF np] keep[OF nn] w show ?thesis by simp
qed

section \<open>The import line in a listed file\<close>

lemma universal_newlines_around_line:
  "universal_newlines (pre @ import_line @ post) =
   universal_newlines pre @ import_line @ universal_newlines post"
proof -
  have h: "import_line @ post = [] \<or> hd (import_line @ post) \<noteq> nl"
    by (simp add: import_line_def nl_def)
  have c: "cr \<notin> set import_line" by (simp add: import_line_def cr_def dquote_def)
  show ?thesis
    by (simp only: universal_newlines_append[OF h] universal_newlines_append_plain[OF c])
qed

text \<open>
  Claim C4 (fix-unused-imports.py): when one of the listed files holds a text in which
  \<open>import { A, WorkflowStepConfig, B } from "../engine/WorkflowStep.js"\<close> occurs, whatever
  comes before and after it, the file holds after the run a text in which
  \<open>import { A, B } from "../engine/WorkflowStep.js"\<close> occurs: the name has gone together
  with its comma, and no comma is left dangling between \<open>A\<close> and \<open>B\<close>.
\<close>

theorem step_config_import_fixed:
  assumes "path \<in> set files_to_fix"
    and "fs path = Some (pre @ import_line @ post)"
  shows "\<exists>out. fst (fix_unused_imports files_to_fix fs) path = Some out \<and>
           contains out fixed_import_line"
proof -
  have d: "distinct files_to_fix" by (simp add: files_to_fix_def)
  let ?stored = "pre @ import_line @ post"
  let ?c = "universal_newlines ?stored"
  from fix_unused_imports_run[OF d, of fs]
  have r: "fst (fix_unused_imports files_to_fix fs) path =
      (if path \<in> set files_to_fix \<and> step_config_changes fs path
       then map_option (fix_step_config \<circ> universal_newlines) (fs path) else fs path)"
    by (rule conjunct2[THEN conjunct2, THEN spec])
  have fixed: "contains (fix_step_config ?c) fixed_import_line"
    unfolding universal_newlines_around_line by (rule fix_step_config_line)
  show ?thesis
  proof (cases "step_config_changes fs path")
    case True
    with r assms have "fst (fix_unused_imports files_to_fix fs) path = Some (fix_step_config ?c)"
      by simp
    with fixed show ?thesis by blast
  next
    case False
    with assms(2) have "fix_step_config ?c = ?c" by (simp add: step_config_changes_def)
    with fixed have "contains ?c fixed_import_line" by simp
    then have "contains ?stored fixed_import_line"
      by (rule contains_universal_newlines) (simp add: fixed_import_line_def nl_def dquote_def)
    moreover from r False assms(2) have
      "fst (fix_unused_imports files_to_fix fs) path = Some ?stored" by simp
    ultimately show ?thesis by blast
  qed
qed

theorem step_config_import_fixed_witness:
  "''src/workflows/steps/QAStep.ts'' \<in> set files_to_fix \<and>
   (\<exists>out. fst (fix_unused_imports files_to_fix
              [''src/workflows/steps/QAStep.ts'' \<mapsto> ''// step'' @ [nl] @ import_line @ '';'' @ [nl]])
            ''src/workflows/steps/QAStep.ts'' = Some out \<and>
          contains out fixed_import_line)"
  using step_config_import_fixed[of "''src/workflows/steps/QAStep.ts''"
      "[''src/workflows/steps/QAStep.ts'' \<mapsto> ''// step'' @ [nl] @ import_line @ '';'' @ [nl]]"
      "''// step'' @ [nl]" "'';'' @ [nl]"]
  by (simp add: files_to_fix_def)

section \<open>The import of the coordinator\<close>





end
